theory Spec2Isabelle
  imports Main "HOL-Library.Word"
begin

unbundle bit_operations_syntax

section \<open>The cache simulator csim.c\<close>

text \<open>
  A shallow embedding of \<^verbatim>\<open>csim.c\<close>. The global variables of the C file are the fields of
  one record that every function takes and returns. C integers are modelled as follows.
  \<^item> \<^verbatim>\<open>unsigned long long\<close> (addresses, tags, LRU counters) is \<open>64 word\<close>; its arithmetic
    wraps around, as C defines for unsigned types.
  \<^item> The \<^verbatim>\<open>int\<close> counters of hits, misses and evictions are \<open>32 word\<close>; \<^verbatim>\<open>++\<close> on them is
    two's-complement addition.
  \<^item> The \<^verbatim>\<open>int\<close> geometry parameters are HOL integers. The only arithmetic on them is the sum
    of the two bit counts, which is used as a shift amount.
  \<^item> An operation whose behaviour C leaves undefined (a shift by a negative amount or by at
    least the width of the type, a left shift of \<^verbatim>\<open>1\<close> whose result does not fit \<^verbatim>\<open>int\<close>, an
    array access outside the allocated block) yields \<open>None\<close>.
  \<^item> \<^verbatim>\<open>ULONG_MAX\<close> of \<^verbatim>\<open>limits.h\<close> has its LP64 value \<open>2 ^ 64 - 1\<close> (x86-64 Linux).
  The globals \<open>verbose_mode\<close> and \<open>trace_filename\<close> are read by no function that touches
  the cache or the counters; they are fields of the record of command-line values that
  \<open>main\<close> fills. \<open>free_cache\<close>, which only releases the table after the replay, is left
  out.
\<close>

subsection \<open>Types and globals (lines 20-56)\<close>

type_synonym memory_address_t = "64 word"

record cache_entry_t =
  is_valid :: "8 word"
  tag_value :: memory_address_t
  lru_counter :: "64 word"

type_synonym cache_group_t = "cache_entry_t list"
type_synonym cache_table_t = "cache_group_t list"

record globals =
  set_index_bits :: int
  block_offset_bits :: int
  associativity :: int
  number_of_sets :: int
  block_size_bytes :: int
  total_misses :: "32 word"
  total_hits :: "32 word"
  total_evictions :: "32 word"
  global_lru_counter :: "64 word"
  cache_memory :: cache_table_t
  set_index_mask :: memory_address_t

text \<open>The static initialisers of the globals; the cache table is not allocated yet.\<close>

definition initial_globals :: globals where
  "initial_globals =
     \<lparr>set_index_bits = 0, block_offset_bits = 0, associativity = 0,
      number_of_sets = 0, block_size_bytes = 0,
      total_misses = 0, total_hits = 0, total_evictions = 0,
      global_lru_counter = 1, cache_memory = [], set_index_mask = 0\<rparr>"

definition ULONG_MAX :: "64 word" where
  "ULONG_MAX = 18446744073709551615"

text \<open>
  The macro \<^verbatim>\<open>#define pow(two, shift) (1 << (shift))\<close>: a left shift of the \<^verbatim>\<open>int\<close>
  constant 1. The first argument is ignored. The result is defined when the shift amount is
  not negative and \<open>2 ^ shift\<close> fits a 32-bit \<^verbatim>\<open>int\<close>.
\<close>

definition pow_macro :: "int \<Rightarrow> int \<Rightarrow> 32 word option" where
  "pow_macro two shift =
     (if 0 \<le> shift \<and> shift < 31 then Some (push_bit (nat shift) 1) else None)"

text \<open>\<^verbatim>\<open>a >> n\<close> on a 64-bit unsigned operand with an \<^verbatim>\<open>int\<close> shift amount.\<close>

definition shift_right :: "64 word \<Rightarrow> int \<Rightarrow> 64 word option" where
  "shift_right a n = (if 0 \<le> n \<and> n < 64 then Some (drop_bit (nat n) a) else None)"

subsection \<open>init_cache (lines 58-76)\<close>

definition empty_line :: cache_entry_t where
  "empty_line = \<lparr>is_valid = 0, tag_value = 0, lru_counter = 0\<rparr>"

text \<open>
  One block of \<open>associativity\<close> lines is allocated per set and every line is zeroed. A
  block is a list whose length is the number of allocated lines; a non-positive count
  allocates no line. The mask is \<^verbatim>\<open>(memory_address_t)(pow(2, set_index_bits) - 1)\<close>: the
  \<^verbatim>\<open>int\<close> value is sign-extended to 64 bits.
\<close>

definition init_cache :: "globals \<Rightarrow> globals option" where
  "init_cache st =
     (case pow_macro 2 (set_index_bits st) of
        None \<Rightarrow> None
      | Some p \<Rightarrow>
          Some (st\<lparr>cache_memory :=
                      replicate (nat (number_of_sets st))
                        (replicate (nat (associativity st)) empty_line),
                    set_index_mask := scast (p - 1)\<rparr>))"

subsection \<open>access_data (lines 87-133)\<close>

text \<open>
  The first loop (lines 98-110) looks for a valid line with the tag. \<open>Some (Some i)\<close> is
  the early return at line \<open>i\<close>, \<open>Some None\<close> is the loop running to its end.
\<close>

function find_hit ::
  "cache_group_t \<Rightarrow> memory_address_t \<Rightarrow> int \<Rightarrow> nat \<Rightarrow> nat option option" where
  "find_hit grp tag assoc line_index =
     (if int line_index < assoc then
        (if line_index < length grp then
           (if is_valid (grp ! line_index) \<noteq> 0 \<and> tag_value (grp ! line_index) = tag
            then Some (Some line_index)
            else find_hit grp tag assoc (line_index + 1))
         else None)
      else Some None)"
  by pat_completeness auto
termination
  by (relation "measure (\<lambda>(grp, tag, assoc, line_index). nat assoc - line_index)") auto

declare find_hit.simps [simp del]

text \<open>
  The second loop (lines 116-123) carries \<open>min_lru_value\<close> and \<open>lru_line_index\<close> and
  returns the index of the line to replace.
\<close>

function find_lru ::
  "cache_group_t \<Rightarrow> int \<Rightarrow> nat \<Rightarrow> 64 word \<Rightarrow> nat \<Rightarrow> nat option" where
  "find_lru grp assoc line_index min_lru_value lru_line_index =
     (if int line_index < assoc then
        (if line_index < length grp then
           (if min_lru_value > lru_counter (grp ! line_index)
            then find_lru grp assoc (line_index + 1) (lru_counter (grp ! line_index)) line_index
            else find_lru grp assoc (line_index + 1) min_lru_value lru_line_index)
         else None)
      else Some lru_line_index)"
  by pat_completeness auto
termination
  by (relation "measure (\<lambda>(grp, assoc, line_index, m, l). nat assoc - line_index)") auto

declare find_lru.simps [simp del]

definition access_data :: "memory_address_t \<Rightarrow> globals \<Rightarrow> globals option" where
  "access_data address st =
     (case shift_right address (block_offset_bits st) of
        None \<Rightarrow> None
      | Some shifted \<Rightarrow>
     (case shift_right address (set_index_bits st + block_offset_bits st) of
        None \<Rightarrow> None
      | Some tag \<Rightarrow>
     (let set_index = unat (shifted AND set_index_mask st) in
      if length (cache_memory st) \<le> set_index then None
      else
        let current_cache_group = cache_memory st ! set_index in
        (case find_hit current_cache_group tag (associativity st) 0 of
           None \<Rightarrow> None
         | Some (Some i) \<Rightarrow>
             Some (st\<lparr>cache_memory := (cache_memory st)
                         [set_index := current_cache_group
                            [i := (current_cache_group ! i)
                                    \<lparr>lru_counter := global_lru_counter st\<rparr>]],
                       global_lru_counter := global_lru_counter st + 1,
                       total_hits := total_hits st + 1\<rparr>)
         | Some None \<Rightarrow>
             (case find_lru current_cache_group (associativity st) 0 ULONG_MAX 0 of
                None \<Rightarrow> None
              | Some v \<Rightarrow>
                  if length current_cache_group \<le> v then None
                  else
                    Some (st\<lparr>total_misses := total_misses st + 1,
                              total_evictions :=
                                (if is_valid (current_cache_group ! v) \<noteq> 0
                                 then total_evictions st + 1 else total_evictions st),
                              cache_memory := (cache_memory st)
                                [set_index := current_cache_group
                                   [v := \<lparr>is_valid = 1, tag_value = tag,
                                          lru_counter = global_lru_counter st\<rparr>]],
                              global_lru_counter := global_lru_counter st + 1\<rparr>))))))"

subsection \<open>replay_trace (lines 135-153)\<close>

text \<open>
  A trace is the list of the records that \<^verbatim>\<open>fscanf\<close> converted, in file order: the command
  character, the address and the size. The body of the loop is the \<^verbatim>\<open>switch\<close>.
\<close>

record trace_record =
  command :: char
  address :: memory_address_t
  access_size :: int

definition trace_switch :: "trace_record \<Rightarrow> globals \<Rightarrow> globals option" where
  "trace_switch r st =
     (if command r = CHR ''L'' then access_data (address r) st
      else if command r = CHR ''S'' then access_data (address r) st
      else if command r = CHR ''M'' then
        (case access_data (address r) st of
           None \<Rightarrow> None
         | Some st1 \<Rightarrow> access_data (address r) st1)
      else Some st)"

fun replay_trace :: "trace_record list \<Rightarrow> globals \<Rightarrow> globals option" where
  "replay_trace [] st = Some st"
| "replay_trace (r # rs) st =
     (case trace_switch r st of None \<Rightarrow> None | Some st' \<Rightarrow> replay_trace rs st')"

subsection \<open>main (lines 155-202)\<close>

text \<open>
  The command line reaches \<open>main\<close> through \<^verbatim>\<open>getopt\<close>: the input of the model is the list of
  the values that the successive calls of \<^verbatim>\<open>getopt\<close> return before it returns -1, each with
  the \<^verbatim>\<open>optarg\<close> of that call. An unrecognised option and an option without its argument
  come back as the character \<open>?\<close>. The files that \<^verbatim>\<open>fopen\<close> can open are a function from
  file names: \<open>None\<close> for a name on which \<^verbatim>\<open>fopen\<close> returns \<^verbatim>\<open>NULL\<close>, and otherwise the
  records that the \<^verbatim>\<open>fscanf\<close> of line 143 converts before it first fails.
\<close>

type_synonym file_system = "string \<Rightarrow> trace_record list option"

text \<open>
  \<^verbatim>\<open>atoi\<close> of the C library: white space is skipped, an optional sign is read, then decimal
  digits up to the first other character; without digits the value is 0. A value that an
  \<^verbatim>\<open>int\<close> cannot hold is undefined behaviour.
\<close>

definition isspace :: "char \<Rightarrow> bool" where
  "isspace c \<longleftrightarrow> (of_char c :: nat) = 32 \<or> (9 \<le> (of_char c :: nat) \<and> (of_char c :: nat) \<le> 13)"

definition isdigit :: "char \<Rightarrow> bool" where
  "isdigit c \<longleftrightarrow> 48 \<le> (of_char c :: nat) \<and> (of_char c :: nat) \<le> 57"

fun decimal_prefix :: "int \<Rightarrow> string \<Rightarrow> int" where
  "decimal_prefix acc [] = acc"
| "decimal_prefix acc (c # cs) =
     (if isdigit c then decimal_prefix (10 * acc + (of_char c - 48)) cs else acc)"

definition atoi :: "string \<Rightarrow> int option" where
  "atoi nptr =
     (let rest = dropWhile isspace nptr;
          v = (case rest of
                 [] \<Rightarrow> 0
               | c # cs \<Rightarrow>
                   if c = CHR ''-'' then - decimal_prefix 0 cs
                   else if c = CHR ''+'' then decimal_prefix 0 cs
                   else decimal_prefix 0 rest)
      in if - (2 ^ 31) \<le> v \<and> v < 2 ^ 31 then Some v else None)"

text \<open>
  The globals that the option loop writes (lines 38-42), with their static initialisers.
\<close>

record arguments =
  arg_verbose_mode :: int
  arg_set_index_bits :: int
  arg_block_offset_bits :: int
  arg_associativity :: int
  arg_trace_filename :: "string option"

definition initial_arguments :: arguments where
  "initial_arguments =
     \<lparr>arg_verbose_mode = 0, arg_set_index_bits = 0, arg_block_offset_bits = 0,
      arg_associativity = 0, arg_trace_filename = None\<rparr>"

text \<open>
  The ways in which \<open>main\<close> ends. \<open>Exit_Silent n\<close> is the \<^verbatim>\<open>exit(n)\<close> of the option loop:
  status 0 for \<^verbatim>\<open>-h\<close>, status 1 for the default case. \<open>Exit_Failure\<close> is the message
  "Missing required command-line argument" followed by \<^verbatim>\<open>exit(1)\<close>. \<open>Print_Summary\<close>
  carries the hits, misses and evictions handed to \<^verbatim>\<open>printSummary\<close>.
\<close>

datatype outcome =
    Exit_Silent int
  | Exit_Failure
  | Undefined_Behaviour
  | Print_Summary "32 word" "32 word" "32 word"

text \<open>The option loop of lines 159-181: the \<^verbatim>\<open>switch\<close> on the value of \<^verbatim>\<open>getopt\<close>.\<close>

fun option_loop :: "(char \<times> string) list \<Rightarrow> arguments \<Rightarrow> outcome + arguments" where
  "option_loop [] args = Inr args"
| "option_loop ((option, optarg) # rest) args =
     (if option = CHR ''s'' then
        (case atoi optarg of
           None \<Rightarrow> Inl Undefined_Behaviour
         | Some n \<Rightarrow> option_loop rest (args\<lparr>arg_set_index_bits := n\<rparr>))
      else if option = CHR ''E'' then
        (case atoi optarg of
           None \<Rightarrow> Inl Undefined_Behaviour
         | Some n \<Rightarrow> option_loop rest (args\<lparr>arg_associativity := n\<rparr>))
      else if option = CHR ''b'' then
        (case atoi optarg of
           None \<Rightarrow> Inl Undefined_Behaviour
         | Some n \<Rightarrow> option_loop rest (args\<lparr>arg_block_offset_bits := n\<rparr>))
      else if option = CHR ''t'' then
        option_loop rest (args\<lparr>arg_trace_filename := Some optarg\<rparr>)
      else if option = CHR ''v'' then
        option_loop rest (args\<lparr>arg_verbose_mode := 1\<rparr>)
      else if option = CHR ''h'' then Inl (Exit_Silent 0)
      else Inl (Exit_Silent 1))"

text \<open>The test of line 184.\<close>

definition missing_required_argument ::
  "int \<Rightarrow> int \<Rightarrow> int \<Rightarrow> string option \<Rightarrow> bool" where
  "missing_required_argument s E b trace_filename \<longleftrightarrow>
     s = 0 \<or> E = 0 \<or> b = 0 \<or> trace_filename = None"

text \<open>
  Lines 190-193: the derived sizes and \<open>init_cache\<close>. The value of \<^verbatim>\<open>pow\<close> is cast to
  \<^verbatim>\<open>unsigned int\<close> and stored in an \<^verbatim>\<open>int\<close>.
\<close>

definition int_of_unsigned_cast :: "32 word \<Rightarrow> int" where
  "int_of_unsigned_cast p = sint (ucast (ucast p :: 32 word) :: 32 word)"

definition configure :: "int \<Rightarrow> int \<Rightarrow> int \<Rightarrow> globals option" where
  "configure s E b =
     (case pow_macro 2 s of
        None \<Rightarrow> None
      | Some ns \<Rightarrow>
     (case pow_macro 2 b of
        None \<Rightarrow> None
      | Some bs \<Rightarrow>
          init_cache (initial_globals
            \<lparr>set_index_bits := s, block_offset_bits := b, associativity := E,
             number_of_sets := int_of_unsigned_cast ns,
             block_size_bytes := int_of_unsigned_cast bs\<rparr>)))"

text \<open>
  Lines 190-200 for a trace file that \<^verbatim>\<open>fopen\<close> has opened: configuration, replay of the
  records of the file, and the three counters given to the summary.
\<close>

definition simulate ::
  "int \<Rightarrow> int \<Rightarrow> int \<Rightarrow> trace_record list \<Rightarrow> (32 word \<times> 32 word \<times> 32 word) option" where
  "simulate s E b trace =
     (case configure s E b of
        None \<Rightarrow> None
      | Some st0 \<Rightarrow>
     (case replay_trace trace st0 of
        None \<Rightarrow> None
      | Some st \<Rightarrow> Some (total_hits st, total_misses st, total_evictions st)))"

text \<open>
  \<open>main\<close>: the option loop with its two exits, the test of line 184, and the simulation.
  The result of \<^verbatim>\<open>fopen\<close> is not tested at line 138; on a file that cannot be opened the
  \<^verbatim>\<open>fscanf\<close> of line 143 reads through a null pointer, which is undefined behaviour.
\<close>

definition main :: "file_system \<Rightarrow> (char \<times> string) list \<Rightarrow> outcome" where
  "main files getopt_results =
     (case option_loop getopt_results initial_arguments of
        Inl e \<Rightarrow> e
      | Inr args \<Rightarrow>
          if missing_required_argument (arg_set_index_bits args) (arg_associativity args)
               (arg_block_offset_bits args) (arg_trace_filename args)
          then Exit_Failure
          else
            (case arg_trace_filename args of
               None \<Rightarrow> Exit_Failure
             | Some trace_filename \<Rightarrow>
                 (case files trace_filename of
                    None \<Rightarrow> Undefined_Behaviour
                  | Some trace \<Rightarrow>
                      (case simulate (arg_set_index_bits args) (arg_associativity args)
                              (arg_block_offset_bits args) trace of
                         None \<Rightarrow> Undefined_Behaviour
                       | Some (h, m, e) \<Rightarrow> Print_Summary h m e))))"

section \<open>Vocabulary of the properties\<close>

text \<open>The set index and the tag of an address, as lines 92 and 93 compute them.\<close>

definition set_index_of :: "globals \<Rightarrow> memory_address_t \<Rightarrow> nat" where
  "set_index_of st a =
     unat (drop_bit (nat (block_offset_bits st)) a AND set_index_mask st)"

definition tag_of :: "globals \<Rightarrow> memory_address_t \<Rightarrow> memory_address_t" where
  "tag_of st a = drop_bit (nat (set_index_bits st + block_offset_bits st)) a"

definition target_group :: "globals \<Rightarrow> memory_address_t \<Rightarrow> cache_group_t" where
  "target_group st a = cache_memory st ! set_index_of st a"

text \<open>The test of lines 100 and 101: the line is valid and holds the tag.\<close>

definition holds_tag :: "memory_address_t \<Rightarrow> cache_entry_t \<Rightarrow> bool" where
  "holds_tag tag l \<longleftrightarrow> is_valid l \<noteq> 0 \<and> tag_value l = tag"

text \<open>
  The state that the hit branch (lines 104-106) leaves when line \<open>i\<close> of the target set
  matched, and the state that the miss branch (lines 113-132) leaves when line \<open>v\<close> of
  the target set is the one replaced.
\<close>

definition hit_state :: "globals \<Rightarrow> memory_address_t \<Rightarrow> nat \<Rightarrow> globals" where
  "hit_state st a i =
     st\<lparr>cache_memory := (cache_memory st)
           [set_index_of st a := (target_group st a)
              [i := (target_group st a ! i)\<lparr>lru_counter := global_lru_counter st\<rparr>]],
        global_lru_counter := global_lru_counter st + 1,
        total_hits := total_hits st + 1\<rparr>"

definition miss_state :: "globals \<Rightarrow> memory_address_t \<Rightarrow> nat \<Rightarrow> globals" where
  "miss_state st a v =
     st\<lparr>total_misses := total_misses st + 1,
        total_evictions :=
          (if is_valid (target_group st a ! v) \<noteq> 0
           then total_evictions st + 1 else total_evictions st),
        cache_memory := (cache_memory st)
          [set_index_of st a := (target_group st a)
             [v := \<lparr>is_valid = 1, tag_value = tag_of st a,
                    lru_counter = global_lru_counter st\<rparr>]],
        global_lru_counter := global_lru_counter st + 1\<rparr>"

text \<open>
  Line \<open>v\<close> is the first line of the group with the least recency stamp.
\<close>

definition first_least_recent :: "cache_group_t \<Rightarrow> nat \<Rightarrow> bool" where
  "first_least_recent grp v \<longleftrightarrow>
     v < length grp \<and>
     (\<forall>j < length grp. lru_counter (grp ! v) \<le> lru_counter (grp ! j)) \<and>
     (\<forall>j < v. lru_counter (grp ! v) < lru_counter (grp ! j))"

text \<open>
  The geometries on which \<open>configure\<close> and every later access stay within defined C:
  both powers of two fit an \<^verbatim>\<open>int\<close> and every set has at least one line.
\<close>

definition supported_geometry :: "int \<Rightarrow> int \<Rightarrow> int \<Rightarrow> bool" where
  "supported_geometry s E b \<longleftrightarrow> 0 \<le> s \<and> s < 31 \<and> 0 \<le> b \<and> b < 31 \<and> 1 \<le> E"

text \<open>A sequence of calls of \<open>access_data\<close>, and the state it leaves from a fresh cache.\<close>

fun access_sequence :: "memory_address_t list \<Rightarrow> globals \<Rightarrow> globals option" where
  "access_sequence [] st = Some st"
| "access_sequence (a # as) st =
     (case access_data a st of None \<Rightarrow> None | Some st' \<Rightarrow> access_sequence as st')"

definition reach :: "int \<Rightarrow> int \<Rightarrow> int \<Rightarrow> memory_address_t list \<Rightarrow> globals option" where
  "reach s E b as =
     (case configure s E b of None \<Rightarrow> None | Some st0 \<Rightarrow> access_sequence as st0)"

text \<open>The accesses that \<open>replay_trace\<close> issues for a list of records, in order.\<close>

fun issued_accesses :: "trace_record list \<Rightarrow> memory_address_t list" where
  "issued_accesses [] = []"
| "issued_accesses (r # rs) =
     (if command r = CHR ''L'' \<or> command r = CHR ''S'' then [address r]
      else if command r = CHR ''M'' then [address r, address r]
      else []) @ issued_accesses rs"

text \<open>A file system in which exactly one name can be opened.\<close>

definition one_file :: "string \<Rightarrow> trace_record list \<Rightarrow> file_system" where
  "one_file name recs = (\<lambda>n. if n = name then Some recs else None)"

text \<open>The number of records of a trace with a given command character.\<close>

definition count_command :: "char \<Rightarrow> trace_record list \<Rightarrow> nat" where
  "count_command c recs = length (filter (\<lambda>r. command r = c) recs)"

text \<open>
  The shape of the table that \<open>init_cache\<close> builds and every access keeps: the geometry
  is in range, there are \<open>2 ^ set_index_bits\<close> sets of \<open>associativity\<close> lines each, and
  the mask selects \<open>set_index_bits\<close> bits.
\<close>

definition well_formed :: "globals \<Rightarrow> bool" where
  "well_formed st \<longleftrightarrow>
     0 \<le> set_index_bits st \<and> 0 \<le> block_offset_bits st \<and>
     set_index_bits st + block_offset_bits st < 64 \<and>
     1 \<le> associativity st \<and>
     length (cache_memory st) = 2 ^ nat (set_index_bits st) \<and>
     set_index_mask st = mask (nat (set_index_bits st)) \<and>
     (\<forall>grp \<in> set (cache_memory st). length grp = nat (associativity st))"

text \<open>No two valid lines of one set hold the same tag.\<close>

definition no_duplicate_tags :: "globals \<Rightarrow> bool" where
  "no_duplicate_tags st \<longleftrightarrow>
     (\<forall>grp \<in> set (cache_memory st). \<forall>i < length grp. \<forall>j < length grp.
        is_valid (grp ! i) \<noteq> 0 \<and> is_valid (grp ! j) \<noteq> 0 \<and>
        tag_value (grp ! i) = tag_value (grp ! j) \<longrightarrow> i = j)"

text \<open>
  The state of the recency stamps after \<open>n\<close> accesses: the clock is \<open>n + 1\<close>, an invalid
  line still has the stamp 0 of \<open>init_cache\<close>, and a valid line has a stamp other than 0.
\<close>

definition stamped :: "nat \<Rightarrow> globals \<Rightarrow> bool" where
  "stamped n st \<longleftrightarrow>
     global_lru_counter st = of_nat (Suc n) \<and>
     (\<forall>grp \<in> set (cache_memory st). \<forall>l \<in> set grp.
        (is_valid l = 0 \<longrightarrow> lru_counter l = 0) \<and>
        (is_valid l \<noteq> 0 \<longrightarrow> lru_counter l \<noteq> 0))"

section \<open>The two loops of access_data\<close>

lemma find_hit_defined:
  "nat assoc \<le> length grp \<Longrightarrow> \<exists>r. find_hit grp tag assoc i = Some r"
proof (induction grp tag assoc i rule: find_hit.induct)
  case (1 grp tag assoc i)
  show ?case
  proof (cases "int i < assoc")
    case True
    with "1.prems" have il: "i < length grp" by linarith
    show ?thesis
    proof (cases "is_valid (grp ! i) \<noteq> 0 \<and> tag_value (grp ! i) = tag")
      case True
      with \<open>int i < assoc\<close> il show ?thesis by (subst find_hit.simps) simp
    next
      case False
      with "1.IH" [OF \<open>int i < assoc\<close> il False "1.prems"] \<open>int i < assoc\<close> il
      show ?thesis by (subst find_hit.simps) auto
    qed
  next
    case False
    then show ?thesis by (subst find_hit.simps) simp
  qed
qed

lemma find_hit_Some:
  "find_hit grp tag assoc i = Some (Some k) \<Longrightarrow>
     i \<le> k \<and> int k < assoc \<and> k < length grp \<and> holds_tag tag (grp ! k) \<and>
     (\<forall>j. i \<le> j \<and> j < k \<longrightarrow> \<not> holds_tag tag (grp ! j))"
proof (induction grp tag assoc i rule: find_hit.induct)
  case (1 grp tag assoc i)
  from "1.prems" have a: "int i < assoc" and il: "i < length grp"
    by (subst (asm) find_hit.simps, simp split: if_splits)+
  show ?case
  proof (cases "is_valid (grp ! i) \<noteq> 0 \<and> tag_value (grp ! i) = tag")
    case True
    with "1.prems" a il have "k = i" by (subst (asm) find_hit.simps) simp
    with True a il show ?thesis by (auto simp: holds_tag_def)
  next
    case False
    with "1.prems" a il have "find_hit grp tag assoc (i + 1) = Some (Some k)"
      by (subst (asm) find_hit.simps) simp
    from "1.IH" [OF a il False this]
    have ih: "i + 1 \<le> k" "int k < assoc" "k < length grp" "holds_tag tag (grp ! k)"
      "\<forall>j. i + 1 \<le> j \<and> j < k \<longrightarrow> \<not> holds_tag tag (grp ! j)"
      by blast+
    have "\<not> holds_tag tag (grp ! j)" if "i \<le> j" "j < k" for j
    proof (cases "j = i")
      case True
      with False show ?thesis by (simp add: holds_tag_def)
    next
      case False
      with that have "i + 1 \<le> j" by simp
      with that ih(5) show ?thesis by blast
    qed
    with ih show ?thesis by auto
  qed
qed

lemma find_hit_None:
  "find_hit grp tag assoc i = Some None \<Longrightarrow>
     \<forall>j. i \<le> j \<and> int j < assoc \<longrightarrow> \<not> holds_tag tag (grp ! j)"
proof (induction grp tag assoc i rule: find_hit.induct)
  case (1 grp tag assoc i)
  show ?case
  proof (cases "int i < assoc")
    case True
    from "1.prems" True have il: "i < length grp"
      by (subst (asm) find_hit.simps) (simp split: if_splits)
    from "1.prems" True il have nm: "\<not> (is_valid (grp ! i) \<noteq> 0 \<and> tag_value (grp ! i) = tag)"
      by (subst (asm) find_hit.simps) (simp split: if_splits)
    with "1.prems" True il have "find_hit grp tag assoc (i + 1) = Some None"
      by (subst (asm) find_hit.simps) simp
    from "1.IH" [OF True il nm this]
    have ih: "\<forall>j. i + 1 \<le> j \<and> int j < assoc \<longrightarrow> \<not> holds_tag tag (grp ! j)" .
    have "\<not> holds_tag tag (grp ! j)" if "i \<le> j" "int j < assoc" for j
    proof (cases "j = i")
      case True
      with nm show ?thesis by (simp add: holds_tag_def)
    next
      case False
      with that have "i + 1 \<le> j" by simp
      with that ih show ?thesis by blast
    qed
    then show ?thesis by blast
  next
    case False
    then show ?thesis by auto
  qed
qed

lemma from_next_index:
  assumes "P (i::nat)" and "\<forall>j. i + 1 \<le> j \<and> Q j \<longrightarrow> P j"
  shows "\<forall>j. i \<le> j \<and> Q j \<longrightarrow> P j"
proof (intro allI impI)
  fix j assume j: "i \<le> j \<and> Q j"
  show "P j"
  proof (cases "j = i")
    case True
    with assms(1) show ?thesis by simp
  next
    case False
    with j have "i + 1 \<le> j" by simp
    with j assms(2) show ?thesis by blast
  qed
qed

lemma find_lru_defined:
  "nat assoc \<le> length grp \<Longrightarrow> \<exists>v. find_lru grp assoc i m l = Some v"
proof (induction grp assoc i m l rule: find_lru.induct)
  case (1 grp assoc i m l)
  show ?case
  proof (cases "int i < assoc")
    case True
    with "1.prems" have il: "i < length grp" by linarith
    show ?thesis
    proof (cases "lru_counter (grp ! i) < m")
      case True
      with "1.IH"(1) [OF \<open>int i < assoc\<close> il True "1.prems"] \<open>int i < assoc\<close> il
      show ?thesis by (subst find_lru.simps) auto
    next
      case False
      with "1.IH"(2) [OF \<open>int i < assoc\<close> il False "1.prems"] \<open>int i < assoc\<close> il
      show ?thesis by (subst find_lru.simps) auto
    qed
  next
    case False
    then show ?thesis by (subst find_lru.simps) simp
  qed
qed

lemma find_lru_spec:
  "find_lru grp assoc i m l = Some v \<Longrightarrow>
     (v = l \<and> (\<forall>j. i \<le> j \<and> int j < assoc \<longrightarrow> m \<le> lru_counter (grp ! j))) \<or>
     (i \<le> v \<and> int v < assoc \<and> v < length grp \<and> lru_counter (grp ! v) < m \<and>
      (\<forall>j. i \<le> j \<and> int j < assoc \<longrightarrow> lru_counter (grp ! v) \<le> lru_counter (grp ! j)) \<and>
      (\<forall>j. i \<le> j \<and> j < v \<longrightarrow> lru_counter (grp ! v) < lru_counter (grp ! j)))"
proof (induction grp assoc i m l rule: find_lru.induct)
  case (1 grp assoc i m l)
  let ?r = "\<lambda>j. lru_counter (grp ! j)"
  show ?case
  proof (cases "int i < assoc")
    case a: True
    from "1.prems" a have il: "i < length grp"
      by (subst (asm) find_lru.simps) (simp split: if_splits)
    show ?thesis
    proof (cases "?r i < m")
      case lt: True
      with "1.prems" a il have "find_lru grp assoc (i + 1) (?r i) i = Some v"
        by (subst (asm) find_lru.simps) simp
      from "1.IH"(1) [OF a il lt this]
      consider (stay) "v = i" "\<forall>j. i + 1 \<le> j \<and> int j < assoc \<longrightarrow> ?r i \<le> ?r j"
        | (move) "i + 1 \<le> v" "int v < assoc" "v < length grp" "?r v < ?r i"
            "\<forall>j. i + 1 \<le> j \<and> int j < assoc \<longrightarrow> ?r v \<le> ?r j"
            "\<forall>j. i + 1 \<le> j \<and> j < v \<longrightarrow> ?r v < ?r j"
        by blast
      then show ?thesis
      proof cases
        case stay
        have "\<forall>j. i \<le> j \<and> int j < assoc \<longrightarrow> ?r i \<le> ?r j"
          by (rule from_next_index [OF _ stay(2)]) simp
        with stay(1) a il lt show ?thesis by auto
      next
        case move
        have all: "\<forall>j. i \<le> j \<and> int j < assoc \<longrightarrow> ?r v \<le> ?r j"
          by (rule from_next_index [OF _ move(5)]) (use move(4) in simp)
        have before: "\<forall>j. i \<le> j \<and> j < v \<longrightarrow> ?r v < ?r j"
          by (rule from_next_index [OF move(4) move(6)])
        from move(4) lt have "?r v < m" by simp
        with move all before show ?thesis by auto
      qed
    next
      case ge: False
      with "1.prems" a il have "find_lru grp assoc (i + 1) m l = Some v"
        by (subst (asm) find_lru.simps) simp
      from "1.IH"(2) [OF a il ge this]
      consider (stay) "v = l" "\<forall>j. i + 1 \<le> j \<and> int j < assoc \<longrightarrow> m \<le> ?r j"
        | (move) "i + 1 \<le> v" "int v < assoc" "v < length grp" "?r v < m"
            "\<forall>j. i + 1 \<le> j \<and> int j < assoc \<longrightarrow> ?r v \<le> ?r j"
            "\<forall>j. i + 1 \<le> j \<and> j < v \<longrightarrow> ?r v < ?r j"
        by blast
      then show ?thesis
      proof cases
        case stay
        from ge have "m \<le> ?r i" by simp
        from from_next_index [OF this stay(2)] stay(1) show ?thesis by blast
      next
        case move
        from ge move(4) have lt: "?r v < ?r i" by simp
        have all: "\<forall>j. i \<le> j \<and> int j < assoc \<longrightarrow> ?r v \<le> ?r j"
          by (rule from_next_index [OF _ move(5)]) (use lt in simp)
        have before: "\<forall>j. i \<le> j \<and> j < v \<longrightarrow> ?r v < ?r j"
          by (rule from_next_index [OF lt move(6)])
        with move all show ?thesis by auto
      qed
    qed
  next
    case False
    with "1.prems" have "v = l" by (subst (asm) find_lru.simps) simp
    with False show ?thesis by auto
  qed
qed

section \<open>Arithmetic of the configuration\<close>


lemma masked_index_bound:
  fixes x :: "64 word"
  shows "unat (x AND mask n) < 2 ^ n"
  by (metis and_mask_lt_2p of_nat_less_numeral_power_cancel_iff of_nat_unat)

lemma int_pow_bound: "n < 31 \<Longrightarrow> (2::int) ^ n < 2 ^ 31"
  by (intro power_strict_increasing) simp_all

lemma sint_push_bit_1: 
  assumes "n < 31" shows "sint (push_bit n 1 :: 32 word) = 2 ^ n"
proof -
  have "(push_bit n 1 :: 32 word) = word_of_int (2 ^ n)" by (simp add: push_bit_of_1)
  then have "sint (push_bit n 1 :: 32 word) = signed_take_bit 31 ((2::int) ^ n)"
    by (simp only: sint_sbintrunc') simp
  also have "\<dots> = 2 ^ n"
  proof (rule signed_take_bit_int_eq_self)
    have "(0::int) < 2 ^ n" and "- (2 ^ 31) \<le> (0::int)" by simp_all
    then show "- (2 ^ 31) \<le> (2::int) ^ n" by linarith
    show "(2::int) ^ n < 2 ^ 31" by (rule int_pow_bound [OF assms])
  qed
  finally show ?thesis .
qed

lemma sint_push_bit_1_minus_1: 
  assumes "n < 31" shows "sint (push_bit n 1 - 1 :: 32 word) = 2 ^ n - 1"
proof -
  have "(push_bit n 1 - 1 :: 32 word) = word_of_int (2 ^ n - 1)" by (simp add: push_bit_of_1)
  then have "sint (push_bit n 1 - 1 :: 32 word) = signed_take_bit 31 ((2::int) ^ n - 1)"
    by (simp only: sint_sbintrunc') simp
  also have "\<dots> = 2 ^ n - 1"
  proof (rule signed_take_bit_int_eq_self)
    have "(0::int) < 2 ^ n" and "- (2 ^ 31) \<le> (0::int)" by simp_all
    then show "- (2 ^ 31) \<le> (2::int) ^ n - 1" by linarith
    from int_pow_bound [OF assms] show "(2::int) ^ n - 1 < 2 ^ 31" by linarith
  qed
  finally show ?thesis .
qed

lemma scast_pow_mask:
  assumes "n < 31" shows "(scast (push_bit n 1 - 1 :: 32 word) :: 64 word) = mask n"
proof -
  have "(scast (push_bit n 1 - 1 :: 32 word) :: 64 word) = word_of_int (sint (push_bit n 1 - 1 :: 32 word))"
    by simp
  also have "\<dots> = word_of_int (2 ^ n - 1)" by (simp only: sint_push_bit_1_minus_1 [OF assms])
  also have "\<dots> = mask n" by (simp add: mask_eq_exp_minus_1)
  finally show ?thesis .
qed

section \<open>The configured state\<close>

lemma pow_macro_eq:
  "0 \<le> n \<Longrightarrow> n < 31 \<Longrightarrow> pow_macro two n = Some (push_bit (nat n) 1)"
  by (simp add: pow_macro_def)

lemma int_of_unsigned_cast_pow:
  "n < 31 \<Longrightarrow> int_of_unsigned_cast (push_bit n 1) = 2 ^ n"
  by (simp only: int_of_unsigned_cast_def ucast_id sint_push_bit_1)

lemma int_of_unsigned_cast_bound: "int_of_unsigned_cast p < 2 ^ 31"
  using sint_lt [of p] by (simp add: int_of_unsigned_cast_def)

lemma int_of_unsigned_cast_power:
  "n < 31 \<Longrightarrow> int_of_unsigned_cast (2 ^ n) = 2 ^ n"
  using int_of_unsigned_cast_pow [of n] by (simp add: push_bit_of_1)

lemma scast_power_mask:
  "n < 31 \<Longrightarrow> (scast (2 ^ n - 1 :: 32 word) :: 64 word) = mask n"
  using scast_pow_mask [of n] by (simp add: push_bit_of_1)

lemma configure_eq:
  assumes "0 \<le> s" "s < 31" "0 \<le> b" "b < 31"
  shows "configure s E b =
           Some (initial_globals
             \<lparr>set_index_bits := s, block_offset_bits := b, associativity := E,
              number_of_sets := 2 ^ nat s, block_size_bytes := 2 ^ nat b,
              cache_memory := replicate (2 ^ nat s) (replicate (nat E) empty_line),
              set_index_mask := mask (nat s)\<rparr>)"
proof -
  from assms have ns: "nat s < 31" and nb: "nat b < 31" by simp_all
  have len: "nat ((2::int) ^ nat s) = 2 ^ nat s" by (simp add: nat_power_eq)
  show ?thesis
    by (simp add: configure_def init_cache_def pow_macro_eq assms
        int_of_unsigned_cast_power [OF ns] int_of_unsigned_cast_power [OF nb]
        scast_power_mask [OF ns] len)
qed

lemma configure_well_formed:
  assumes "supported_geometry s E b" and "configure s E b = Some st"
  shows "well_formed st"
proof -
  from assms(1) have g: "0 \<le> s" "s < 31" "0 \<le> b" "b < 31" "1 \<le> E"
    by (simp_all add: supported_geometry_def)
  from assms(2) show ?thesis
    unfolding configure_eq [OF g(1-4)] using g
    by (auto simp: well_formed_def initial_globals_def)
qed

lemma configure_no_duplicate_tags:
  assumes "supported_geometry s E b" and "configure s E b = Some st"
  shows "no_duplicate_tags st"
proof -
  from assms(1) have g: "0 \<le> s" "s < 31" "0 \<le> b" "b < 31"
    by (simp_all add: supported_geometry_def)
  from assms(2) show ?thesis
    unfolding configure_eq [OF g(1-4)]
    by (auto simp: no_duplicate_tags_def initial_globals_def empty_line_def)
qed

lemma configure_stamped:
  assumes "supported_geometry s E b" and "configure s E b = Some st"
  shows "stamped 0 st"
proof -
  from assms(1) have g: "0 \<le> s" "s < 31" "0 \<le> b" "b < 31"
    by (simp_all add: supported_geometry_def)
  from assms(2) show ?thesis
    unfolding configure_eq [OF g(1-4)]
    by (auto simp: stamped_def initial_globals_def empty_line_def)
qed

lemma configure_counters:
  assumes "configure s E b = Some st"
  shows "total_hits st = 0 \<and> total_misses st = 0 \<and> total_evictions st = 0"
  using assms
  by (auto simp: configure_def init_cache_def initial_globals_def split: option.splits)

section \<open>One access on a well-formed state\<close>

lemma well_formed_shifts:
  assumes "well_formed st"
  shows "shift_right a (block_offset_bits st) = Some (drop_bit (nat (block_offset_bits st)) a)"
    and "shift_right a (set_index_bits st + block_offset_bits st) = Some (tag_of st a)"
  using assms by (simp_all add: well_formed_def shift_right_def tag_of_def)

lemma well_formed_index:
  assumes "well_formed st"
  shows "set_index_of st a < length (cache_memory st)"
  using assms masked_index_bound [of "drop_bit (nat (block_offset_bits st)) a" "nat (set_index_bits st)"]
  by (simp add: well_formed_def set_index_of_def)

lemma well_formed_group:
  assumes "well_formed st"
  shows "length (target_group st a) = nat (associativity st)"
    and "0 < length (target_group st a)"
proof -
  from well_formed_index [OF assms] have "target_group st a \<in> set (cache_memory st)"
    by (simp add: target_group_def)
  with assms show "length (target_group st a) = nat (associativity st)"
    by (simp add: well_formed_def)
  with assms show "0 < length (target_group st a)"
    by (simp add: well_formed_def)
qed

lemma access_data_hit_eq:
  assumes "well_formed st"
    and "find_hit (target_group st a) (tag_of st a) (associativity st) 0 = Some (Some i)"
  shows "access_data a st = Some (hit_state st a i)"
proof -
  from well_formed_index [OF assms(1), of a]
  have "\<not> length (cache_memory st) \<le> set_index_of st a" by (simp add: not_le)
  with assms(2) show ?thesis
    by (simp add: access_data_def well_formed_shifts [OF assms(1)] Let_def
        hit_state_def miss_state_def target_group_def set_index_of_def)
qed

lemma access_data_miss_eq:
  assumes "well_formed st"
    and "find_hit (target_group st a) (tag_of st a) (associativity st) 0 = Some None"
    and "find_lru (target_group st a) (associativity st) 0 ULONG_MAX 0 = Some v"
    and "v < length (target_group st a)"
  shows "access_data a st = Some (miss_state st a v)"
proof -
  from well_formed_index [OF assms(1), of a]
  have "\<not> length (cache_memory st) \<le> set_index_of st a" by (simp add: not_le)
  with assms(2-4) show ?thesis
    by (simp add: access_data_def well_formed_shifts [OF assms(1)] Let_def
        hit_state_def miss_state_def target_group_def set_index_of_def)
qed

text \<open>The outcome of the first loop in terms of the lines of the set.\<close>

lemma find_hit_miss_iff:
  assumes "length grp = nat assoc"
  shows "find_hit grp tag assoc 0 = Some None \<longleftrightarrow> (\<forall>i < length grp. \<not> holds_tag tag (grp ! i))"
proof
  assume "find_hit grp tag assoc 0 = Some None"
  from find_hit_None [OF this] assms show "\<forall>i < length grp. \<not> holds_tag tag (grp ! i)"
    by auto
next
  assume none: "\<forall>i < length grp. \<not> holds_tag tag (grp ! i)"
  from assms have "nat assoc \<le> length grp" by simp
  from find_hit_defined [OF this] obtain r where r: "find_hit grp tag assoc 0 = Some r"
    by blast
  show "find_hit grp tag assoc 0 = Some None"
  proof (cases r)
    case None
    with r show ?thesis by simp
  next
    case (Some k)
    with r find_hit_Some [of grp tag assoc 0 k] none show ?thesis by auto
  qed
qed

lemma find_hit_first:
  assumes "length grp = nat assoc" and "i < length grp" and "holds_tag tag (grp ! i)"
  shows "\<exists>k \<le> i. find_hit grp tag assoc 0 = Some (Some k) \<and> holds_tag tag (grp ! k)"
proof -
  from assms(1) have "nat assoc \<le> length grp" by simp
  from find_hit_defined [OF this] obtain r where r: "find_hit grp tag assoc 0 = Some r"
    by blast
  show ?thesis
  proof (cases r)
    case None
    with r find_hit_None [of grp tag assoc 0] assms show ?thesis by auto
  next
    case (Some k)
    with r find_hit_Some [of grp tag assoc 0 k]
    have k: "holds_tag tag (grp ! k)" "\<forall>j. j < k \<longrightarrow> \<not> holds_tag tag (grp ! j)"
      by auto
    with assms(3) have "k \<le> i" by (meson not_le)
    with k r Some show ?thesis by auto
  qed
qed

text \<open>The outcome of the second loop: the first line with the least stamp.\<close>

lemma find_lru_first_least:
  assumes "length grp = nat assoc" and "0 < length grp"
  shows "\<exists>v. find_lru grp assoc 0 ULONG_MAX 0 = Some v \<and> first_least_recent grp v"
proof -
  from assms(1) have "nat assoc \<le> length grp" by simp
  from find_lru_defined [OF this]
  obtain v where v: "find_lru grp assoc 0 ULONG_MAX 0 = Some v" by blast
  have max: "ULONG_MAX = - 1" by (simp add: ULONG_MAX_def)
  have top: "x \<le> ULONG_MAX" for x unfolding max by (rule word_n1_ge)
  from find_lru_spec [OF v]
  consider (stay) "v = 0" "\<forall>j. int j < assoc \<longrightarrow> ULONG_MAX \<le> lru_counter (grp ! j)"
    | (move) "v < length grp"
        "\<forall>j. int j < assoc \<longrightarrow> lru_counter (grp ! v) \<le> lru_counter (grp ! j)"
        "\<forall>j. j < v \<longrightarrow> lru_counter (grp ! v) < lru_counter (grp ! j)"
    by auto
  then show ?thesis
  proof cases
    case stay
    have "lru_counter (grp ! 0) \<le> lru_counter (grp ! j)" if "j < length grp" for j
    proof -
      from that assms(1) have "int j < assoc" by simp
      with stay(2) have "ULONG_MAX \<le> lru_counter (grp ! j)" by blast
      with top [of "lru_counter (grp ! 0)"] show ?thesis by simp
    qed
    with v stay(1) assms(2) show ?thesis by (auto simp: first_least_recent_def)
  next
    case move
    have "lru_counter (grp ! v) \<le> lru_counter (grp ! j)" if "j < length grp" for j
    proof -
      from that assms(1) have "int j < assoc" by simp
      with move(2) show ?thesis by blast
    qed
    with v move show ?thesis by (auto simp: first_least_recent_def)
  qed
qed

text \<open>At most one line of a group is the first with the least stamp.\<close>

lemma first_least_recent_unique:
  assumes "first_least_recent grp v" and "first_least_recent grp w"
  shows "v = w"
proof (rule ccontr)
  assume "v \<noteq> w"
  then consider "v < w" | "w < v" by (meson nat_neq_iff)
  then show False
  proof cases
    case 1
    with assms have "lru_counter (grp ! w) < lru_counter (grp ! v)"
      and "lru_counter (grp ! v) \<le> lru_counter (grp ! w)"
      by (auto simp: first_least_recent_def)
    then show False by simp
  next
    case 2
    with assms have "lru_counter (grp ! v) < lru_counter (grp ! w)"
      and "lru_counter (grp ! w) \<le> lru_counter (grp ! v)"
      by (auto simp: first_least_recent_def)
    then show False by simp
  qed
qed

text \<open>Every access to a well-formed state returns, by one of the two branches.\<close>

lemma access_data_cases [consumes 1, case_names hit miss]:
  assumes "well_formed st"
  obtains (hit) i where "i < length (target_group st a)"
      and "holds_tag (tag_of st a) (target_group st a ! i)"
      and "\<forall>j < i. \<not> holds_tag (tag_of st a) (target_group st a ! j)"
      and "access_data a st = Some (hit_state st a i)"
  | (miss) v where "\<forall>i < length (target_group st a). \<not> holds_tag (tag_of st a) (target_group st a ! i)"
      and "find_lru (target_group st a) (associativity st) 0 ULONG_MAX 0 = Some v"
      and "first_least_recent (target_group st a) v"
      and "access_data a st = Some (miss_state st a v)"
proof -
  let ?grp = "target_group st a" and ?tag = "tag_of st a"
  note len = well_formed_group [OF assms, of a]
  from len(1) have "nat (associativity st) \<le> length ?grp" by simp
  from find_hit_defined [OF this]
  obtain r where r: "find_hit ?grp ?tag (associativity st) 0 = Some r" by blast
  show thesis
  proof (cases r)
    case None
    with r have fh: "find_hit ?grp ?tag (associativity st) 0 = Some None" by simp
    from find_lru_first_least [OF len]
    obtain v where v: "find_lru ?grp (associativity st) 0 ULONG_MAX 0 = Some v"
      "first_least_recent ?grp v" by blast
    then have "v < length ?grp" by (simp add: first_least_recent_def)
    from access_data_miss_eq [OF assms fh v(1) this] fh v show thesis
      by (intro miss [of v]) (simp_all add: find_hit_miss_iff [OF len(1)])
  next
    case (Some i)
    with r have fh: "find_hit ?grp ?tag (associativity st) 0 = Some (Some i)" by simp
    from find_hit_Some [OF fh] access_data_hit_eq [OF assms fh] show thesis
      by (intro hit [of i]) simp_all
  qed
qed

section \<open>Invariants of the table\<close>

lemma in_set_update:
  assumes "g \<in> set (xs[k := y])"
  shows "g = y \<or> g \<in> set xs"
  using assms set_update_subset_insert [of xs k y] by auto

lemma target_group_in_table:
  assumes "well_formed st"
  shows "target_group st a \<in> set (cache_memory st)"
  using well_formed_index [OF assms, of a] by (simp add: target_group_def)

lemma well_formed_hit_state:
  assumes "well_formed st"
  shows "well_formed (hit_state st a i)"
proof -
  have "length g = nat (associativity st)"
    if "g \<in> set (cache_memory (hit_state st a i))" for g
  proof -
    from that in_set_update
    have "g = (target_group st a)[i := (target_group st a ! i)\<lparr>lru_counter := global_lru_counter st\<rparr>]
        \<or> g \<in> set (cache_memory st)"
      by (fastforce simp: hit_state_def)
    with assms well_formed_group(1) [OF assms, of a] show ?thesis
      by (auto simp: well_formed_def)
  qed
  with assms show ?thesis by (simp add: well_formed_def hit_state_def)
qed

lemma well_formed_miss_state:
  assumes "well_formed st"
  shows "well_formed (miss_state st a v)"
proof -
  have "length g = nat (associativity st)"
    if "g \<in> set (cache_memory (miss_state st a v))" for g
  proof -
    from that in_set_update
    have "g = (target_group st a)[v := \<lparr>is_valid = 1, tag_value = tag_of st a,
                 lru_counter = global_lru_counter st\<rparr>]
        \<or> g \<in> set (cache_memory st)"
      by (fastforce simp: miss_state_def)
    with assms well_formed_group(1) [OF assms, of a] show ?thesis
      by (auto simp: well_formed_def)
  qed
  with assms show ?thesis by (simp add: well_formed_def miss_state_def)
qed

lemma access_data_well_formed:
  assumes "well_formed st"
  shows "\<exists>st'. access_data a st = Some st' \<and> well_formed st'"
  using assms
  by (cases rule: access_data_cases [OF assms, of a])
     (auto simp: well_formed_hit_state well_formed_miss_state)

lemma no_duplicate_tags_hit_state:
  assumes "well_formed st" and "no_duplicate_tags st"
  shows "no_duplicate_tags (hit_state st a i)"
proof -
  let ?grp = "target_group st a"
  let ?g' = "?grp[i := (?grp ! i)\<lparr>lru_counter := global_lru_counter st\<rparr>]"
  have same: "is_valid (?g' ! j) = is_valid (?grp ! j) \<and> tag_value (?g' ! j) = tag_value (?grp ! j)"
    if "j < length ?grp" for j
    using that by (cases "j = i") simp_all
  have "x = y"
    if g: "g \<in> set (cache_memory (hit_state st a i))"
      and xy: "x < length g" "y < length g"
      and v: "is_valid (g ! x) \<noteq> 0" "is_valid (g ! y) \<noteq> 0"
      and t: "tag_value (g ! x) = tag_value (g ! y)" for g x y
  proof -
    from g in_set_update have "g = ?g' \<or> g \<in> set (cache_memory st)"
      by (fastforce simp: hit_state_def)
    then show ?thesis
    proof
      assume old: "g \<in> set (cache_memory st)"
      with assms(2) xy v t show ?thesis unfolding no_duplicate_tags_def by blast
    next
      assume new: "g = ?g'"
      with xy have "x < length ?grp" "y < length ?grp" by simp_all
      with same new v t have "is_valid (?grp ! x) \<noteq> 0" "is_valid (?grp ! y) \<noteq> 0"
        "tag_value (?grp ! x) = tag_value (?grp ! y)" by simp_all
      with assms(2) target_group_in_table [OF assms(1), of a]
        \<open>x < length ?grp\<close> \<open>y < length ?grp\<close>
      show ?thesis unfolding no_duplicate_tags_def by blast
    qed
  qed
  then show ?thesis unfolding no_duplicate_tags_def by blast
qed

lemma no_duplicate_tags_miss_state:
  assumes "well_formed st" and "no_duplicate_tags st"
    and miss: "\<forall>i < length (target_group st a). \<not> holds_tag (tag_of st a) (target_group st a ! i)"
  shows "no_duplicate_tags (miss_state st a v)"
proof -
  let ?grp = "target_group st a"
  let ?new = "\<lparr>is_valid = 1, tag_value = tag_of st a, lru_counter = global_lru_counter st\<rparr>"
  let ?g' = "?grp[v := ?new]"
  have "x = y"
    if g: "g \<in> set (cache_memory (miss_state st a v))"
      and xy: "x < length g" "y < length g"
      and vl: "is_valid (g ! x) \<noteq> 0" "is_valid (g ! y) \<noteq> 0"
      and t: "tag_value (g ! x) = tag_value (g ! y)" for g x y
  proof -
    from g in_set_update have "g = ?g' \<or> g \<in> set (cache_memory st)"
      by (fastforce simp: miss_state_def)
    then show ?thesis
    proof
      assume old: "g \<in> set (cache_memory st)"
      with assms(2) xy vl t show ?thesis unfolding no_duplicate_tags_def by blast
    next
      assume new: "g = ?g'"
      with xy have lx: "x < length ?grp" and ly: "y < length ?grp" by simp_all
      show ?thesis
      proof (cases "x = v")
        case xv: True
        show ?thesis
        proof (cases "y = v")
          case True
          with xv show ?thesis by simp
        next
          case False
          with new xv lx ly vl t have "holds_tag (tag_of st a) (?grp ! y)"
            by (simp add: holds_tag_def)
          with miss ly show ?thesis by blast
        qed
      next
        case xv: False
        show ?thesis
        proof (cases "y = v")
          case True
          with new xv lx ly vl t have "holds_tag (tag_of st a) (?grp ! x)"
            by (simp add: holds_tag_def)
          with miss lx show ?thesis by blast
        next
          case False
          with new xv vl t have "is_valid (?grp ! x) \<noteq> 0" "is_valid (?grp ! y) \<noteq> 0"
            "tag_value (?grp ! x) = tag_value (?grp ! y)" by simp_all
          with assms(2) target_group_in_table [OF assms(1), of a] lx ly
          show ?thesis unfolding no_duplicate_tags_def by blast
        qed
      qed
    qed
  qed
  then show ?thesis unfolding no_duplicate_tags_def by blast
qed

lemma access_data_no_duplicate_tags:
  assumes "well_formed st" and "no_duplicate_tags st" and "access_data a st = Some st'"
  shows "no_duplicate_tags st'"
  using assms(3)
  by (cases rule: access_data_cases [OF assms(1), of a])
     (auto simp: no_duplicate_tags_hit_state [OF assms(1,2)]
        no_duplicate_tags_miss_state [OF assms(1,2)])

lemma clock_not_zero:
  assumes "Suc n < 2 ^ 64"
  shows "(of_nat (Suc n) :: 64 word) \<noteq> 0"
  using assms by (intro of_nat_neq_0) simp_all

lemma stamped_hit_state:
  assumes "well_formed st" and "stamped n st" and "Suc n < 2 ^ 64"
    and "i < length (target_group st a)" and "is_valid (target_group st a ! i) \<noteq> 0"
  shows "stamped (Suc n) (hit_state st a i)"
proof -
  let ?grp = "target_group st a"
  let ?l' = "(?grp ! i)\<lparr>lru_counter := global_lru_counter st\<rparr>"
  from assms(2) have clock: "global_lru_counter st = of_nat (Suc n)"
    by (simp add: stamped_def)
  have ok: "(is_valid l = 0 \<longrightarrow> lru_counter l = 0) \<and> (is_valid l \<noteq> 0 \<longrightarrow> lru_counter l \<noteq> 0)"
    if g: "g \<in> set (cache_memory (hit_state st a i))" and l: "l \<in> set g" for g l
  proof -
    from g in_set_update have "g = ?grp[i := ?l'] \<or> g \<in> set (cache_memory st)"
      by (fastforce simp: hit_state_def)
    then show ?thesis
    proof
      assume "g \<in> set (cache_memory st)"
      with assms(2) l show ?thesis unfolding stamped_def by blast
    next
      assume "g = ?grp[i := ?l']"
      with l in_set_update have "l = ?l' \<or> l \<in> set ?grp" by fastforce
      then show ?thesis
      proof
        assume "l = ?l'"
        with assms(5) clock clock_not_zero [OF assms(3)] show ?thesis by simp
      next
        assume "l \<in> set ?grp"
        with assms(2) target_group_in_table [OF assms(1), of a] show ?thesis
          unfolding stamped_def by blast
      qed
    qed
  qed
  have "global_lru_counter (hit_state st a i) = of_nat (Suc (Suc n))"
    using clock by (simp add: hit_state_def)
  with ok show ?thesis unfolding stamped_def by blast
qed

lemma stamped_miss_state:
  assumes "well_formed st" and "stamped n st" and "Suc n < 2 ^ 64"
  shows "stamped (Suc n) (miss_state st a v)"
proof -
  let ?grp = "target_group st a"
  let ?l' = "\<lparr>is_valid = 1, tag_value = tag_of st a, lru_counter = global_lru_counter st\<rparr>"
  from assms(2) have clock: "global_lru_counter st = of_nat (Suc n)"
    by (simp add: stamped_def)
  have ok: "(is_valid l = 0 \<longrightarrow> lru_counter l = 0) \<and> (is_valid l \<noteq> 0 \<longrightarrow> lru_counter l \<noteq> 0)"
    if g: "g \<in> set (cache_memory (miss_state st a v))" and l: "l \<in> set g" for g l
  proof -
    from g in_set_update have "g = ?grp[v := ?l'] \<or> g \<in> set (cache_memory st)"
      by (fastforce simp: miss_state_def)
    then show ?thesis
    proof
      assume "g \<in> set (cache_memory st)"
      with assms(2) l show ?thesis unfolding stamped_def by blast
    next
      assume "g = ?grp[v := ?l']"
      with l in_set_update have "l = ?l' \<or> l \<in> set ?grp" by fastforce
      then show ?thesis
      proof
        assume "l = ?l'"
        with clock clock_not_zero [OF assms(3)] show ?thesis by simp
      next
        assume "l \<in> set ?grp"
        with assms(2) target_group_in_table [OF assms(1), of a] show ?thesis
          unfolding stamped_def by blast
      qed
    qed
  qed
  have "global_lru_counter (miss_state st a v) = of_nat (Suc (Suc n))"
    using clock by (simp add: miss_state_def)
  with ok show ?thesis unfolding stamped_def by blast
qed

lemma access_data_stamped:
  assumes "well_formed st" and "stamped n st" and "Suc n < 2 ^ 64"
    and "access_data a st = Some st'"
  shows "stamped (Suc n) st'"
  using assms(1)
proof (cases rule: access_data_cases [where a = a])
  case (hit i)
  from hit(2) have "is_valid (target_group st a ! i) \<noteq> 0" by (simp add: holds_tag_def)
  from stamped_hit_state [OF assms(1-3) hit(1) this] hit(4) assms(4) show ?thesis by simp
next
  case (miss v)
  from stamped_miss_state [OF assms(1-3)] miss(4) assms(4) show ?thesis by simp
qed

section \<open>Sequences of accesses\<close>

lemma access_sequence_well_formed:
  assumes "well_formed st"
  shows "\<exists>st'. access_sequence as st = Some st' \<and> well_formed st'"
  using assms
proof (induction as arbitrary: st)
  case Nil
  then show ?case by simp
next
  case (Cons a as)
  from access_data_well_formed [OF Cons.prems, of a]
  obtain st1 where "access_data a st = Some st1" "well_formed st1" by blast
  with Cons.IH [of st1] show ?case by simp
qed

lemma access_sequence_no_duplicate_tags:
  assumes "well_formed st" and "no_duplicate_tags st" and "access_sequence as st = Some st'"
  shows "no_duplicate_tags st'"
  using assms
proof (induction as arbitrary: st)
  case Nil
  then show ?case by simp
next
  case (Cons a as)
  from access_data_well_formed [OF Cons.prems(1), of a]
  obtain st1 where st1: "access_data a st = Some st1" "well_formed st1" by blast
  from access_data_no_duplicate_tags [OF Cons.prems(1,2) st1(1)]
  have "no_duplicate_tags st1" .
  with Cons.IH [of st1] st1 Cons.prems(3) show ?case by simp
qed

lemma access_sequence_stamped:
  assumes "well_formed st" and "stamped n st" and "n + length as < 2 ^ 64"
    and "access_sequence as st = Some st'"
  shows "stamped (n + length as) st'"
  using assms
proof (induction as arbitrary: st n)
  case Nil
  then show ?case by simp
next
  case (Cons a as)
  from access_data_well_formed [OF Cons.prems(1), of a]
  obtain st1 where st1: "access_data a st = Some st1" "well_formed st1" by blast
  from Cons.prems(3) have "Suc n < 2 ^ 64" by simp
  from access_data_stamped [OF Cons.prems(1,2) this st1(1)]
  have "stamped (Suc n) st1" .
  with Cons.IH [of st1 "Suc n"] st1 Cons.prems(3,4) show ?case by simp
qed

text \<open>The geometry is never written after the configuration.\<close>

lemma access_data_geometry:
  assumes "well_formed st" and "access_data a st = Some st'"
  shows "set_index_bits st' = set_index_bits st \<and> block_offset_bits st' = block_offset_bits st \<and>
         associativity st' = associativity st \<and> number_of_sets st' = number_of_sets st \<and>
         block_size_bytes st' = block_size_bytes st \<and> set_index_mask st' = set_index_mask st \<and>
         length (cache_memory st') = length (cache_memory st)"
  using assms(2)
  by (cases rule: access_data_cases [OF assms(1), of a])
     (auto simp: hit_state_def miss_state_def)

lemma access_sequence_geometry:
  assumes "well_formed st" and "access_sequence as st = Some st'"
  shows "set_index_bits st' = set_index_bits st \<and> block_offset_bits st' = block_offset_bits st \<and>
         associativity st' = associativity st \<and> number_of_sets st' = number_of_sets st \<and>
         block_size_bytes st' = block_size_bytes st \<and> set_index_mask st' = set_index_mask st \<and>
         length (cache_memory st') = length (cache_memory st)"
  using assms
proof (induction as arbitrary: st)
  case Nil
  then show ?case by simp
next
  case (Cons a as)
  from access_data_well_formed [OF Cons.prems(1), of a]
  obtain st1 where st1: "access_data a st = Some st1" "well_formed st1" by blast
  from Cons.IH [OF st1(2)] st1(1) Cons.prems(2) access_data_geometry [OF Cons.prems(1) st1(1)]
  show ?case by simp
qed

text \<open>What holds of every state reached from a fresh cache of a supported geometry.\<close>

lemma reach_defined:
  assumes "supported_geometry s E b"
  shows "\<exists>st. reach s E b as = Some st"
proof -
  from assms have "0 \<le> s" "s < 31" "0 \<le> b" "b < 31" by (simp_all add: supported_geometry_def)
  from configure_eq [OF this] obtain st0 where st0: "configure s E b = Some st0" by blast
  from access_sequence_well_formed [OF configure_well_formed [OF assms st0], of as] st0
  show ?thesis by (auto simp: reach_def)
qed

lemma reach_invariants:
  assumes "supported_geometry s E b" and "reach s E b as = Some st"
  shows "well_formed st" and "no_duplicate_tags st"
    and "length as < 2 ^ 64 \<Longrightarrow> stamped (length as) st"
    and "set_index_bits st = s" and "block_offset_bits st = b" and "associativity st = E"
proof -
  from assms(2) obtain st0 where st0: "configure s E b = Some st0"
    and seq: "access_sequence as st0 = Some st"
    by (auto simp: reach_def split: option.splits)
  note wf0 = configure_well_formed [OF assms(1) st0]
  from access_sequence_well_formed [OF wf0, of as] seq show "well_formed st" by auto
  from access_sequence_no_duplicate_tags [OF wf0 configure_no_duplicate_tags [OF assms(1) st0] seq]
  show "no_duplicate_tags st" .
  from access_sequence_stamped [OF wf0 configure_stamped [OF assms(1) st0] _ seq]
  show "length as < 2 ^ 64 \<Longrightarrow> stamped (length as) st" by simp
  from assms(1) have g: "0 \<le> s" "s < 31" "0 \<le> b" "b < 31" by (simp_all add: supported_geometry_def)
  from st0 have "set_index_bits st0 = s" "block_offset_bits st0 = b" "associativity st0 = E"
    unfolding configure_eq [OF g] by auto
  with access_sequence_geometry [OF wf0 seq]
  show "set_index_bits st = s" and "block_offset_bits st = b" and "associativity st = E"
    by simp_all
qed

section \<open>The claims about one access\<close>

text \<open>
  C1. On a miss, the line replaced is the one that the second loop returns: no line of the
  target set has a smaller recency stamp, and every line before it has a strictly greater
  one, so that among lines with the least stamp the lowest index wins. In a state reached
  from a fresh cache by fewer than \<open>2 ^ 64\<close> accesses (the 64-bit clock has not wrapped), an
  invalid line still has stamp 0 and every valid line a stamp other than 0; so if the set
  has an invalid line, the line replaced is invalid and all lines before it are valid.
\<close>

theorem victim_is_first_least_recent:
  assumes "supported_geometry s E b" and "reach s E b as = Some st"
    and "length as < 2 ^ 64"
    and "\<forall>i < length (target_group st a). \<not> holds_tag (tag_of st a) (target_group st a ! i)"
  shows "\<exists>v. find_lru (target_group st a) (associativity st) 0 ULONG_MAX 0 = Some v \<and>
           access_data a st = Some (miss_state st a v) \<and>
           v < length (target_group st a) \<and>
           (\<forall>j < length (target_group st a).
              lru_counter (target_group st a ! v) \<le> lru_counter (target_group st a ! j)) \<and>
           (\<forall>j < v. lru_counter (target_group st a ! v) < lru_counter (target_group st a ! j)) \<and>
           ((\<exists>j < length (target_group st a). is_valid (target_group st a ! j) = 0) \<longrightarrow>
              is_valid (target_group st a ! v) = 0 \<and>
              (\<forall>j < v. is_valid (target_group st a ! j) \<noteq> 0))"
proof -
  let ?grp = "target_group st a"
  note inv = reach_invariants [OF assms(1,2)]
  from inv(3) [OF assms(3)]
  have stamps: "\<forall>grp \<in> set (cache_memory st). \<forall>l \<in> set grp.
      (is_valid l = 0 \<longrightarrow> lru_counter l = 0) \<and> (is_valid l \<noteq> 0 \<longrightarrow> lru_counter l \<noteq> 0)"
    by (simp add: stamped_def)
  have line: "(is_valid (?grp ! j) = 0 \<longrightarrow> lru_counter (?grp ! j) = 0) \<and>
      (is_valid (?grp ! j) \<noteq> 0 \<longrightarrow> lru_counter (?grp ! j) \<noteq> 0)" if "j < length ?grp" for j
    using stamps target_group_in_table [OF inv(1), of a] that nth_mem by blast
  from inv(1) show ?thesis
  proof (cases rule: access_data_cases [where a = a])
    case (hit i)
    with assms(4) show ?thesis by blast
  next
    case (miss v)
    from miss(3) have v: "v < length ?grp"
      and least: "\<forall>j < length ?grp. lru_counter (?grp ! v) \<le> lru_counter (?grp ! j)"
      and first: "\<forall>j < v. lru_counter (?grp ! v) < lru_counter (?grp ! j)"
      by (simp_all add: first_least_recent_def)
    have "is_valid (?grp ! v) = 0 \<and> (\<forall>j < v. is_valid (?grp ! j) \<noteq> 0)"
      if "\<exists>j < length ?grp. is_valid (?grp ! j) = 0"
    proof -
      from that obtain j where j: "j < length ?grp" "is_valid (?grp ! j) = 0" by blast
      with line have "lru_counter (?grp ! j) = 0" by blast
      with least j(1) have zero: "lru_counter (?grp ! v) = 0" by (metis word_le_0_iff)
      with line [OF v] have "is_valid (?grp ! v) = 0" by blast
      moreover have "is_valid (?grp ! k) \<noteq> 0" if "k < v" for k
      proof -
        from that first zero have "lru_counter (?grp ! k) \<noteq> 0" by fastforce
        moreover from that v have "k < length ?grp" by simp
        ultimately show ?thesis using line by blast
      qed
      ultimately show ?thesis by blast
    qed
    with miss(2,4) v least first show ?thesis by blast
  qed
qed

theorem victim_is_first_least_recent_witness:
  "\<exists>st. supported_geometry 1 2 1 \<and> reach 1 2 1 [0] = Some st \<and>
     length [0 :: memory_address_t] < 2 ^ 64 \<and>
     (\<forall>i < length (target_group st 4). \<not> holds_tag (tag_of st 4) (target_group st 4 ! i)) \<and>
     (\<exists>j < length (target_group st 4). is_valid (target_group st 4 ! j) = 0) \<and>
     (\<exists>v. access_data 4 st = Some (miss_state st 4 v) \<and>
          is_valid (target_group st 4 ! v) = 0 \<and>
          (\<forall>j < v. is_valid (target_group st 4 ! j) \<noteq> 0))"
proof -
  define st where "st =
    \<lparr>set_index_bits = 1, block_offset_bits = 1, associativity = 2,
     number_of_sets = 2, block_size_bytes = 2,
     total_misses = 1, total_hits = 0, total_evictions = 0,
     global_lru_counter = 2,
     cache_memory =
       [[\<lparr>is_valid = 1, tag_value = 0, lru_counter = 1\<rparr>, empty_line],
        [empty_line, empty_line]],
     set_index_mask = 1\<rparr>"
  have g: "supported_geometry 1 2 1" by (simp add: supported_geometry_def)
  have r: "reach 1 2 1 [0] = Some st" unfolding st_def by code_simp
  have n: "length [0 :: memory_address_t] < 2 ^ 64" by simp
  have grp: "target_group st 4 = [\<lparr>is_valid = 1, tag_value = 0, lru_counter = 1\<rparr>, empty_line]"
    and tag: "tag_of st 4 = 1"
    unfolding st_def by code_simp+
  have m: "\<forall>i < length (target_group st 4). \<not> holds_tag (tag_of st 4) (target_group st 4 ! i)"
    unfolding grp tag by (simp add: holds_tag_def empty_line_def less_Suc_eq)
  have inv: "\<exists>j < length (target_group st 4). is_valid (target_group st 4 ! j) = 0"
    unfolding grp by (rule exI [of _ 1]) (simp add: empty_line_def)
  from victim_is_first_least_recent [OF g r n m] inv g r n m show ?thesis by blast
qed

lemma no_duplicate_tags_same:
  assumes "no_duplicate_tags st" and "grp \<in> set (cache_memory st)"
    and "x < length grp" and "y < length grp"
    and "holds_tag t (grp ! x)" and "holds_tag t (grp ! y)"
  shows "x = y"
proof -
  from assms(1,2) have "\<forall>i < length grp. \<forall>j < length grp.
      is_valid (grp ! i) \<noteq> 0 \<and> is_valid (grp ! j) \<noteq> 0 \<and>
      tag_value (grp ! i) = tag_value (grp ! j) \<longrightarrow> i = j"
    unfolding no_duplicate_tags_def by (rule bspec)
  with assms(3,4) have "is_valid (grp ! x) \<noteq> 0 \<and> is_valid (grp ! y) \<noteq> 0 \<and>
      tag_value (grp ! x) = tag_value (grp ! y) \<longrightarrow> x = y"
    by simp
  with assms(5,6) show ?thesis by (simp add: holds_tag_def)
qed

text \<open>
  C2. In a state reached from a fresh cache, when line \<open>i\<close> of the target set is valid and
  holds the tag of the address, the access takes the hit branch: the new state is the old
  one with the recency stamp of that line set to the old clock value, the clock advanced by
  one and the hit counter incremented by one. The miss and eviction counters, the geometry,
  and the valid and tag fields of every line are as before.
\<close>

theorem hit_updates_recency_only:
  assumes "supported_geometry s E b" and "reach s E b as = Some st"
    and "i < length (target_group st a)"
    and "holds_tag (tag_of st a) (target_group st a ! i)"
  shows "\<exists>st'. access_data a st = Some st' \<and>
           st' = st\<lparr>cache_memory := (cache_memory st)
                      [set_index_of st a := (target_group st a)
                         [i := (target_group st a ! i)\<lparr>lru_counter := global_lru_counter st\<rparr>]],
                    global_lru_counter := global_lru_counter st + 1,
                    total_hits := total_hits st + 1\<rparr> \<and>
           lru_counter (cache_memory st' ! set_index_of st a ! i) = global_lru_counter st \<and>
           total_hits st' = total_hits st + 1 \<and>
           total_misses st' = total_misses st \<and>
           total_evictions st' = total_evictions st \<and>
           (\<forall>k < length (cache_memory st). \<forall>j < length (cache_memory st ! k).
              is_valid (cache_memory st' ! k ! j) = is_valid (cache_memory st ! k ! j) \<and>
              tag_value (cache_memory st' ! k ! j) = tag_value (cache_memory st ! k ! j))"
proof -
  let ?grp = "target_group st a" and ?tag = "tag_of st a" and ?si = "set_index_of st a"
  note inv = reach_invariants [OF assms(1,2)]
  note len = well_formed_group [OF inv(1), of a]
  from find_hit_first [OF len(1) assms(3,4)]
  obtain k where k: "k \<le> i" "find_hit ?grp ?tag (associativity st) 0 = Some (Some k)"
    "holds_tag ?tag (?grp ! k)" by blast
  from k(1) assms(3) have "k < length ?grp" by simp
  from no_duplicate_tags_same [OF inv(2) target_group_in_table [OF inv(1), of a] this assms(3) k(3) assms(4)]
  have "k = i" .
  with access_data_hit_eq [OF inv(1) k(2)]
  have res: "access_data a st = Some (hit_state st a i)" by simp
  have si: "?si < length (cache_memory st)" by (rule well_formed_index [OF inv(1)])
  have fields: "is_valid (cache_memory (hit_state st a i) ! k ! j) = is_valid (cache_memory st ! k ! j) \<and>
      tag_value (cache_memory (hit_state st a i) ! k ! j) = tag_value (cache_memory st ! k ! j)"
    if "k < length (cache_memory st)" "j < length (cache_memory st ! k)" for k j
  proof (cases "k = ?si")
    case True
    with that si show ?thesis
      by (cases "j = i") (simp_all add: hit_state_def target_group_def)
  next
    case False
    then show ?thesis by (simp add: hit_state_def)
  qed
  have stamp: "lru_counter (cache_memory (hit_state st a i) ! ?si ! i) = global_lru_counter st"
    using si assms(3) by (simp add: hit_state_def)
  have eq: "hit_state st a i =
      st\<lparr>cache_memory := (cache_memory st)
            [?si := ?grp[i := (?grp ! i)\<lparr>lru_counter := global_lru_counter st\<rparr>]],
         global_lru_counter := global_lru_counter st + 1,
         total_hits := total_hits st + 1\<rparr>"
    by (simp add: hit_state_def)
  have counters: "total_hits (hit_state st a i) = total_hits st + 1"
    "total_misses (hit_state st a i) = total_misses st"
    "total_evictions (hit_state st a i) = total_evictions st"
    by (simp_all add: hit_state_def)
  show ?thesis
    apply (rule exI [of _ "hit_state st a i"])
    apply (intro conjI)
          apply (rule res)
         apply (rule eq)
        apply (rule stamp)
       apply (rule counters(1))
      apply (rule counters(2))
     apply (rule counters(3))
    using fields apply blast
    done
qed

theorem hit_updates_recency_only_witness:
  "\<exists>st. supported_geometry 1 2 1 \<and> reach 1 2 1 [0, 4] = Some st \<and>
     1 < length (target_group st 5) \<and>
     holds_tag (tag_of st 5) (target_group st 5 ! 1) \<and>
     access_data 5 st =
       Some (st\<lparr>cache_memory :=
                   [[\<lparr>is_valid = 1, tag_value = 0, lru_counter = 1\<rparr>,
                     \<lparr>is_valid = 1, tag_value = 1, lru_counter = 3\<rparr>],
                    [empty_line, empty_line]],
                 global_lru_counter := 4, total_hits := 1\<rparr>)"
proof -
  define st where "st =
    \<lparr>set_index_bits = 1, block_offset_bits = 1, associativity = 2,
     number_of_sets = 2, block_size_bytes = 2,
     total_misses = 2, total_hits = 0, total_evictions = 0,
     global_lru_counter = 3,
     cache_memory =
       [[\<lparr>is_valid = 1, tag_value = 0, lru_counter = 1\<rparr>,
         \<lparr>is_valid = 1, tag_value = 1, lru_counter = 2\<rparr>],
        [empty_line, empty_line]],
     set_index_mask = 1\<rparr>"
  have g: "supported_geometry 1 2 1" by (simp add: supported_geometry_def)
  have r: "reach 1 2 1 [0, 4] = Some st" unfolding st_def by code_simp
  have grp: "target_group st 5 =
      [\<lparr>is_valid = 1, tag_value = 0, lru_counter = 1\<rparr>,
       \<lparr>is_valid = 1, tag_value = 1, lru_counter = 2\<rparr>]"
    and tag: "tag_of st 5 = 1" and si: "set_index_of st 5 = 0"
    unfolding st_def by code_simp+
  have i: "1 < length (target_group st 5)" unfolding grp by simp
  have h: "holds_tag (tag_of st 5) (target_group st 5 ! 1)"
    unfolding grp tag by (simp add: holds_tag_def)
  from hit_updates_recency_only [OF g r i h]
  have "access_data 5 st =
      Some (st\<lparr>cache_memory := (cache_memory st)
                  [set_index_of st 5 := (target_group st 5)
                     [1 := (target_group st 5 ! 1)\<lparr>lru_counter := global_lru_counter st\<rparr>]],
                global_lru_counter := global_lru_counter st + 1,
                total_hits := total_hits st + 1\<rparr>)"
    by simp
  then have "access_data 5 st =
       Some (st\<lparr>cache_memory :=
                   [[\<lparr>is_valid = 1, tag_value = 0, lru_counter = 1\<rparr>,
                     \<lparr>is_valid = 1, tag_value = 1, lru_counter = 3\<rparr>],
                    [empty_line, empty_line]],
                 global_lru_counter := 4, total_hits := 1\<rparr>)"
    unfolding grp si by (simp add: st_def)
  with g r i h show ?thesis by blast
qed

text \<open>
  C3. In a state reached from a fresh cache, an access that finds no valid line with its
  tag takes the miss branch: the miss counter is incremented by one, the hit counter is
  unchanged, and the eviction counter is incremented by one exactly when the line chosen
  for replacement was valid; when that line was invalid the eviction counter is unchanged.
\<close>

theorem eviction_counted_iff_victim_valid:
  assumes "supported_geometry s E b" and "reach s E b as = Some st"
    and "\<forall>i < length (target_group st a). \<not> holds_tag (tag_of st a) (target_group st a ! i)"
  shows "\<exists>v st'. find_lru (target_group st a) (associativity st) 0 ULONG_MAX 0 = Some v \<and>
           v < length (target_group st a) \<and>
           access_data a st = Some st' \<and>
           total_misses st' = total_misses st + 1 \<and>
           total_hits st' = total_hits st \<and>
           (total_evictions st' = total_evictions st + 1 \<longleftrightarrow>
              is_valid (target_group st a ! v) \<noteq> 0) \<and>
           (total_evictions st' = total_evictions st \<longleftrightarrow>
              is_valid (target_group st a ! v) = 0)"
proof -
  note inv = reach_invariants [OF assms(1,2)]
  from inv(1) show ?thesis
  proof (cases rule: access_data_cases [where a = a])
    case (hit i)
    with assms(3) show ?thesis by blast
  next
    case (miss v)
    from miss(3) have v: "v < length (target_group st a)"
      by (simp add: first_least_recent_def)
    have "total_misses (miss_state st a v) = total_misses st + 1"
      and "total_hits (miss_state st a v) = total_hits st"
      and "total_evictions (miss_state st a v) = total_evictions st + 1 \<longleftrightarrow>
        is_valid (target_group st a ! v) \<noteq> 0"
      and "total_evictions (miss_state st a v) = total_evictions st \<longleftrightarrow>
        is_valid (target_group st a ! v) = 0"
      by (simp_all add: miss_state_def)
    with miss(2,4) v show ?thesis by blast
  qed
qed

theorem eviction_counted_iff_victim_valid_witness:
  "\<exists>st. supported_geometry 1 1 1 \<and> reach 1 1 1 [0] = Some st \<and>
     (\<forall>i < length (target_group st 4). \<not> holds_tag (tag_of st 4) (target_group st 4 ! i)) \<and>
     is_valid (target_group st 4 ! 0) \<noteq> 0 \<and>
     (\<exists>st'. access_data 4 st = Some st' \<and> total_misses st' = total_misses st + 1 \<and>
        total_evictions st' = total_evictions st + 1)"
proof -
  define st where "st =
    \<lparr>set_index_bits = 1, block_offset_bits = 1, associativity = 1,
     number_of_sets = 2, block_size_bytes = 2,
     total_misses = 1, total_hits = 0, total_evictions = 0,
     global_lru_counter = 2,
     cache_memory = [[\<lparr>is_valid = 1, tag_value = 0, lru_counter = 1\<rparr>], [empty_line]],
     set_index_mask = 1\<rparr>"
  have g: "supported_geometry 1 1 1" by (simp add: supported_geometry_def)
  have r: "reach 1 1 1 [0] = Some st" unfolding st_def by code_simp
  have grp: "target_group st 4 = [\<lparr>is_valid = 1, tag_value = 0, lru_counter = 1\<rparr>]"
    and tag: "tag_of st 4 = 1"
    unfolding st_def by code_simp+
  have m: "\<forall>i < length (target_group st 4). \<not> holds_tag (tag_of st 4) (target_group st 4 ! i)"
    unfolding grp tag by (simp add: holds_tag_def)
  have valid: "is_valid (target_group st 4 ! 0) \<noteq> 0" unfolding grp by simp
  from eviction_counted_iff_victim_valid [OF g r m]
  obtain v st' where v: "v < length (target_group st 4)"
    and res: "access_data 4 st = Some st'" "total_misses st' = total_misses st + 1"
      "total_evictions st' = total_evictions st + 1 \<longleftrightarrow> is_valid (target_group st 4 ! v) \<noteq> 0"
    by blast
  from v have "v = 0" unfolding grp by simp
  with res valid have "access_data 4 st = Some st' \<and> total_misses st' = total_misses st + 1 \<and>
      total_evictions st' = total_evictions st + 1" by simp
  with g r m valid show ?thesis by blast
qed

text \<open>
  C10. In a state reached from a fresh cache, an access returns a state in which the table
  has the same number of sets, every set other than the one selected by the set-index bits
  of the address is unchanged, the selected set has the same number of lines and differs
  from its old value in at most one line, and the geometry (bit counts, associativity,
  number of sets, block size, mask) is unchanged. The selected set is the one whose index
  is the value of the \<open>set_index_bits\<close> bits of the address above its
  \<open>block_offset_bits\<close> lowest bits.
\<close>

theorem access_changes_one_line_of_target_set:
  assumes "supported_geometry s E b" and "reach s E b as = Some st"
  shows "\<exists>st' i. access_data a st = Some st' \<and>
           set_index_of st a < length (cache_memory st) \<and>
           set_index_of st a = (unat a div 2 ^ nat b) mod 2 ^ nat s \<and>
           i < length (target_group st a) \<and>
           length (cache_memory st') = length (cache_memory st) \<and>
           (\<forall>k < length (cache_memory st). k \<noteq> set_index_of st a \<longrightarrow>
              cache_memory st' ! k = cache_memory st ! k) \<and>
           length (cache_memory st' ! set_index_of st a) = length (target_group st a) \<and>
           (\<forall>j < length (target_group st a). j \<noteq> i \<longrightarrow>
              cache_memory st' ! set_index_of st a ! j = target_group st a ! j) \<and>
           set_index_bits st' = set_index_bits st \<and>
           block_offset_bits st' = block_offset_bits st \<and>
           associativity st' = associativity st \<and>
           number_of_sets st' = number_of_sets st \<and>
           block_size_bytes st' = block_size_bytes st \<and>
           set_index_mask st' = set_index_mask st"
proof -
  let ?si = "set_index_of st a" and ?grp = "target_group st a"
  note inv = reach_invariants [OF assms(1,2)]
  have si: "?si < length (cache_memory st)" by (rule well_formed_index [OF inv(1)])
  from inv(1) have "set_index_mask st = mask (nat (set_index_bits st))"
    by (simp add: well_formed_def)
  then have "?si = unat (take_bit (nat s) (drop_bit (nat b) a))"
    by (simp add: set_index_of_def inv(4,5) take_bit_eq_mask)
  also have "\<dots> = take_bit (nat s) (drop_bit (nat b) (unat a))"
    by (simp only: unsigned_take_bit_eq unat_drop_bit_eq)
  also have "\<dots> = (unat a div 2 ^ nat b) mod 2 ^ nat s"
    by (simp only: take_bit_eq_mod drop_bit_eq_div)
  finally have bits: "?si = (unat a div 2 ^ nat b) mod 2 ^ nat s" .
  have frame: "\<exists>i. i < length ?grp \<and>
      length (cache_memory st') = length (cache_memory st) \<and>
      (\<forall>k < length (cache_memory st). k \<noteq> ?si \<longrightarrow> cache_memory st' ! k = cache_memory st ! k) \<and>
      length (cache_memory st' ! ?si) = length ?grp \<and>
      (\<forall>j < length ?grp. j \<noteq> i \<longrightarrow> cache_memory st' ! ?si ! j = ?grp ! j)"
    if "i < length ?grp" "cache_memory st' = (cache_memory st)[?si := ?grp[i := l]]" for st' i l
    using that si by (intro exI [of _ i]) simp
  from inv(1) obtain st' i where res: "access_data a st = Some st'"
    and i: "i < length ?grp"
    and upd: "\<exists>l. cache_memory st' = (cache_memory st)[?si := ?grp[i := l]]"
  proof (cases rule: access_data_cases [where a = a])
    case (hit i)
    from hit(1,4) that [of "hit_state st a i" i] show thesis by (auto simp: hit_state_def)
  next
    case (miss v)
    from miss(3) have "v < length ?grp" by (simp add: first_least_recent_def)
    with miss(4) that [of "miss_state st a v" v] show thesis by (auto simp: miss_state_def)
  qed
  from upd obtain l where "cache_memory st' = (cache_memory st)[?si := ?grp[i := l]]" by blast
  from frame [OF i this] access_data_geometry [OF inv(1) res] res si bits
  show ?thesis by blast
qed

theorem access_changes_one_line_of_target_set_witness:
  "\<exists>st. supported_geometry 1 2 1 \<and> reach 1 2 1 [0] = Some st \<and>
     (\<exists>st'. access_data 6 st = Some st' \<and> set_index_of st 6 = 1 \<and>
        cache_memory st' ! 0 = cache_memory st ! 0 \<and>
        associativity st' = associativity st)"
proof -
  define st where "st =
    \<lparr>set_index_bits = 1, block_offset_bits = 1, associativity = 2,
     number_of_sets = 2, block_size_bytes = 2,
     total_misses = 1, total_hits = 0, total_evictions = 0,
     global_lru_counter = 2,
     cache_memory =
       [[\<lparr>is_valid = 1, tag_value = 0, lru_counter = 1\<rparr>, empty_line],
        [empty_line, empty_line]],
     set_index_mask = 1\<rparr>"
  have g: "supported_geometry 1 2 1" by (simp add: supported_geometry_def)
  have r: "reach 1 2 1 [0] = Some st" unfolding st_def by code_simp
  from access_changes_one_line_of_target_set [OF g r, of 6]
  obtain st' where res: "access_data 6 st = Some st'"
    and si: "set_index_of st 6 = (unat (6 :: memory_address_t) div 2 ^ nat 1) mod 2 ^ nat 1"
    and others: "\<forall>k < length (cache_memory st). k \<noteq> set_index_of st 6 \<longrightarrow>
        cache_memory st' ! k = cache_memory st ! k"
    and assoc: "associativity st' = associativity st"
    by blast
  from si have si1: "set_index_of st 6 = 1" by simp
  have "0 < length (cache_memory st)" by (simp add: st_def)
  with others si1 have "cache_memory st' ! 0 = cache_memory st ! 0" by simp
  with g r res si1 assoc show ?thesis by blast
qed

section \<open>The claims about the replay of a trace\<close>

lemma access_data_present:
  assumes "well_formed st" and "i < length (target_group st a)"
    and "holds_tag (tag_of st a) (target_group st a ! i)"
  shows "\<exists>k. access_data a st = Some (hit_state st a k)"
proof -
  from find_hit_first [OF well_formed_group(1) [OF assms(1)] assms(2,3)]
  obtain k where "find_hit (target_group st a) (tag_of st a) (associativity st) 0 = Some (Some k)"
    by blast
  from access_data_hit_eq [OF assms(1) this] show ?thesis by blast
qed

lemma hit_state_keeps_tag:
  assumes "well_formed st" and "i < length (target_group st a)"
    and "holds_tag (tag_of st a) (target_group st a ! i)"
  shows "i < length (target_group (hit_state st a i) a) \<and>
         holds_tag (tag_of (hit_state st a i) a) (target_group (hit_state st a i) a ! i)"
proof -
  have "set_index_of (hit_state st a i) a = set_index_of st a"
    and tag: "tag_of (hit_state st a i) a = tag_of st a"
    by (simp_all add: set_index_of_def tag_of_def hit_state_def)
  with well_formed_index [OF assms(1), of a]
  have "target_group (hit_state st a i) a =
      (target_group st a)[i := (target_group st a ! i)\<lparr>lru_counter := global_lru_counter st\<rparr>]"
    by (simp add: target_group_def hit_state_def)
  with assms(2,3) tag show ?thesis by (simp add: holds_tag_def)
qed

lemma miss_state_installs_tag:
  assumes "well_formed st" and "v < length (target_group st a)"
  shows "v < length (target_group (miss_state st a v) a) \<and>
         holds_tag (tag_of (miss_state st a v) a) (target_group (miss_state st a v) a ! v)"
proof -
  have "set_index_of (miss_state st a v) a = set_index_of st a"
    and tag: "tag_of (miss_state st a v) a = tag_of st a"
    by (simp_all add: set_index_of_def tag_of_def miss_state_def)
  with well_formed_index [OF assms(1), of a]
  have "target_group (miss_state st a v) a =
      (target_group st a)[v := \<lparr>is_valid = 1, tag_value = tag_of st a,
         lru_counter = global_lru_counter st\<rparr>]"
    by (simp add: target_group_def miss_state_def)
  with assms(2) tag show ?thesis by (simp add: holds_tag_def)
qed

text \<open>
  C4. In a state reached from a fresh cache, a record with command \<open>M\<close> makes the switch
  call \<open>access_data\<close> twice with the address of the record, the second call on the state
  that the first one returned. Both calls return. The second call is a hit: it increments
  the hit counter by one and leaves the miss and eviction counters unchanged. Over the two
  calls the counters therefore change by two hits, or by one miss and one hit.
\<close>

theorem modify_second_access_hits:
  assumes "supported_geometry s E b" and "reach s E b as = Some st"
    and "command r = CHR ''M''"
  shows "\<exists>st1 st2. access_data (address r) st = Some st1 \<and>
           access_data (address r) st1 = Some st2 \<and>
           trace_switch r st = Some st2 \<and>
           total_hits st2 = total_hits st1 + 1 \<and>
           total_misses st2 = total_misses st1 \<and>
           total_evictions st2 = total_evictions st1 \<and>
           ((total_hits st2 = total_hits st + 2 \<and> total_misses st2 = total_misses st) \<or>
            (total_hits st2 = total_hits st + 1 \<and> total_misses st2 = total_misses st + 1))"
proof -
  let ?a = "address r"
  note inv = reach_invariants [OF assms(1,2)]
  have second: "\<exists>st2. access_data ?a st1 = Some st2 \<and>
      total_hits st2 = total_hits st1 + 1 \<and> total_misses st2 = total_misses st1 \<and>
      total_evictions st2 = total_evictions st1"
    if "well_formed st1" "i < length (target_group st1 ?a)"
      "holds_tag (tag_of st1 ?a) (target_group st1 ?a ! i)" for st1 i
  proof -
    from access_data_present [OF that] obtain k
      where "access_data ?a st1 = Some (hit_state st1 ?a k)" by blast
    then show ?thesis by (simp add: hit_state_def)
  qed
  have switch: "trace_switch r st = Some st2"
    if "access_data ?a st = Some st1" "access_data ?a st1 = Some st2" for st1 st2
    using that assms(3) by (simp add: trace_switch_def)
  from inv(1) show ?thesis
  proof (cases rule: access_data_cases [where a = ?a])
    case (hit i)
    let ?st1 = "hit_state st ?a i"
    from hit_state_keeps_tag [OF inv(1) hit(1,2)] second [OF well_formed_hit_state [OF inv(1)]]
    obtain st2 where st2: "access_data ?a ?st1 = Some st2"
      "total_hits st2 = total_hits ?st1 + 1" "total_misses st2 = total_misses ?st1"
      "total_evictions st2 = total_evictions ?st1"
      by blast
    have "total_hits ?st1 = total_hits st + 1" "total_misses ?st1 = total_misses st"
      by (simp_all add: hit_state_def)
    with st2 have "total_hits st2 = total_hits st + 2 \<and> total_misses st2 = total_misses st"
      by simp
    with hit(4) st2 switch [OF hit(4) st2(1)] show ?thesis by blast
  next
    case (miss v)
    let ?st1 = "miss_state st ?a v"
    from miss(3) have "v < length (target_group st ?a)" by (simp add: first_least_recent_def)
    from miss_state_installs_tag [OF inv(1) this] second [OF well_formed_miss_state [OF inv(1)]]
    obtain st2 where st2: "access_data ?a ?st1 = Some st2"
      "total_hits st2 = total_hits ?st1 + 1" "total_misses st2 = total_misses ?st1"
      "total_evictions st2 = total_evictions ?st1"
      by blast
    have "total_hits ?st1 = total_hits st" "total_misses ?st1 = total_misses st + 1"
      by (simp_all add: miss_state_def)
    with st2 have "total_hits st2 = total_hits st + 1 \<and> total_misses st2 = total_misses st + 1"
      by simp
    with miss(4) st2 switch [OF miss(4) st2(1)] show ?thesis by blast
  qed
qed

theorem modify_second_access_hits_witness:
  "\<exists>st. supported_geometry 1 1 1 \<and> reach 1 1 1 [0] = Some st \<and>
     command \<lparr>command = CHR ''M'', address = 4, access_size = 1\<rparr> = CHR ''M'' \<and>
     (\<exists>st2. trace_switch \<lparr>command = CHR ''M'', address = 4, access_size = 1\<rparr> st = Some st2 \<and>
        ((total_hits st2 = total_hits st + 2 \<and> total_misses st2 = total_misses st) \<or>
         (total_hits st2 = total_hits st + 1 \<and> total_misses st2 = total_misses st + 1)))"
proof -
  define st where "st =
    \<lparr>set_index_bits = 1, block_offset_bits = 1, associativity = 1,
     number_of_sets = 2, block_size_bytes = 2,
     total_misses = 1, total_hits = 0, total_evictions = 0,
     global_lru_counter = 2,
     cache_memory = [[\<lparr>is_valid = 1, tag_value = 0, lru_counter = 1\<rparr>], [empty_line]],
     set_index_mask = 1\<rparr>"
  let ?r = "\<lparr>command = CHR ''M'', address = 4, access_size = 1\<rparr>"
  have g: "supported_geometry 1 1 1" by (simp add: supported_geometry_def)
  have r: "reach 1 1 1 [0] = Some st" unfolding st_def by code_simp
  have c: "command ?r = CHR ''M''" by simp
  from modify_second_access_hits [OF g r c] g r c show ?thesis by blast
qed

lemma sint_small:
  fixes h :: "32 word"
  assumes "unat h < 2 ^ 31"
  shows "sint h = int (unat h)"
proof -
  have "sint h = signed_take_bit 31 (uint h)" by (simp add: sint_uint)
  also have "\<dots> = uint h"
  proof (rule signed_take_bit_int_eq_self)
    have "0 \<le> uint h" and "- (2 ^ 31) \<le> (0::int)" by simp_all
    then show "- (2 ^ 31) \<le> uint h" by linarith
    from assms have "int (unat h) < 2 ^ 31" by (metis of_nat_less_numeral_power_cancel_iff)
    then show "uint h < 2 ^ 31" by simp
  qed
  finally show ?thesis by simp
qed

lemma unat_increment:
  fixes h :: "32 word"
  assumes "unat h + 1 < 2 ^ 32"
  shows "unat (h + 1) = unat h + 1"
  using assms by (simp add: unat_word_ariths)

lemma access_data_counts:
  assumes "well_formed st" and "access_data a st = Some st'"
  shows "(total_hits st' = total_hits st + 1 \<and> total_misses st' = total_misses st) \<or>
         (total_hits st' = total_hits st \<and> total_misses st' = total_misses st + 1)"
  using assms(2)
  by (cases rule: access_data_cases [OF assms(1), of a])
     (auto simp: hit_state_def miss_state_def)

lemma access_sequence_counts_word:
  assumes "well_formed st" and "access_sequence as st = Some st'"
  shows "total_hits st' + total_misses st' = total_hits st + total_misses st + of_nat (length as)"
  using assms
proof (induction as arbitrary: st)
  case Nil
  then show ?case by simp
next
  case (Cons a as)
  from access_data_well_formed [OF Cons.prems(1), of a]
  obtain st1 where st1: "access_data a st = Some st1" "well_formed st1" by blast
  with Cons.prems(2) have "access_sequence as st1 = Some st'" by simp
  from Cons.IH [OF st1(2) this] access_data_counts [OF Cons.prems(1) st1(1)]
  show ?case by auto
qed

lemma access_sequence_counts_exact:
  assumes "well_formed st" and "access_sequence as st = Some st'"
    and "unat (total_hits st) + unat (total_misses st) + length as < 2 ^ 32"
  shows "unat (total_hits st') + unat (total_misses st') =
         unat (total_hits st) + unat (total_misses st) + length as"
  using assms
proof (induction as arbitrary: st)
  case Nil
  then show ?case by simp
next
  case (Cons a as)
  from access_data_well_formed [OF Cons.prems(1), of a]
  obtain st1 where st1: "access_data a st = Some st1" "well_formed st1" by blast
  with Cons.prems(2) have rest: "access_sequence as st1 = Some st'" by simp
  from Cons.prems(3) have h: "unat (total_hits st) + 1 < 2 ^ 32"
    and m: "unat (total_misses st) + 1 < 2 ^ 32" by simp_all
  from access_data_counts [OF Cons.prems(1) st1(1)]
  have one: "unat (total_hits st1) + unat (total_misses st1) =
      unat (total_hits st) + unat (total_misses st) + 1"
  proof
    assume "total_hits st1 = total_hits st + 1 \<and> total_misses st1 = total_misses st"
    with unat_increment [OF h] show ?thesis by simp
  next
    assume "total_hits st1 = total_hits st \<and> total_misses st1 = total_misses st + 1"
    with unat_increment [OF m] show ?thesis by simp
  qed
  with Cons.prems(3)
  have "unat (total_hits st1) + unat (total_misses st1) + length as < 2 ^ 32" by simp
  from Cons.IH [OF st1(2) rest this] one show ?case by simp
qed

text \<open>The replay of a trace is the sequence of the accesses that its records issue.\<close>

lemma access_sequence_append:
  "access_sequence (xs @ ys) st =
     (case access_sequence xs st of None \<Rightarrow> None | Some st' \<Rightarrow> access_sequence ys st')"
  by (induction xs arbitrary: st) (auto split: option.splits)

lemma replay_trace_issued:
  "replay_trace recs st = access_sequence (issued_accesses recs) st"
proof (induction recs arbitrary: st)
  case Nil
  then show ?case by simp
next
  case (Cons r recs)
  show ?case
    by (simp add: Cons.IH trace_switch_def access_sequence_append split: option.splits)
qed

lemma length_issued_accesses:
  "length (issued_accesses recs) =
     count_command (CHR ''L'') recs + count_command (CHR ''S'') recs +
     2 * count_command (CHR ''M'') recs"
  by (induction recs) (auto simp: count_command_def)

text \<open>
  C5. From the state that the configuration of a supported geometry leaves, the replay of
  any list of records returns, and in the returned state the sum of the hit and miss
  counters is the number of \<open>L\<close> records plus the number of \<open>S\<close> records plus twice the
  number of \<open>M\<close> records. The equation holds in the 32-bit arithmetic of the counters,
  and between the integer values of the counters as long as that number fits an \<^verbatim>\<open>int\<close>.
  A record with any other command leaves the whole state, hence every counter, unchanged.
\<close>

theorem hits_plus_misses_conservation:
  assumes "supported_geometry s E b"
  shows "\<exists>st0 st. configure s E b = Some st0 \<and> replay_trace recs st0 = Some st \<and>
           total_hits st + total_misses st =
             of_nat (count_command (CHR ''L'') recs + count_command (CHR ''S'') recs +
                     2 * count_command (CHR ''M'') recs) \<and>
           (count_command (CHR ''L'') recs + count_command (CHR ''S'') recs +
              2 * count_command (CHR ''M'') recs < 2 ^ 31 \<longrightarrow>
            sint (total_hits st) + sint (total_misses st) =
              int (count_command (CHR ''L'') recs + count_command (CHR ''S'') recs +
                   2 * count_command (CHR ''M'') recs)) \<and>
           (\<forall>r st1. command r \<noteq> CHR ''L'' \<and> command r \<noteq> CHR ''S'' \<and> command r \<noteq> CHR ''M'' \<longrightarrow>
              trace_switch r st1 = Some st1)"
proof -
  let ?n = "count_command (CHR ''L'') recs + count_command (CHR ''S'') recs +
            2 * count_command (CHR ''M'') recs"
  from assms have "0 \<le> s" "s < 31" "0 \<le> b" "b < 31" by (simp_all add: supported_geometry_def)
  from configure_eq [OF this] obtain st0 where st0: "configure s E b = Some st0" by blast
  note wf0 = configure_well_formed [OF assms st0]
  note zero = configure_counters [OF st0]
  from access_sequence_well_formed [OF wf0, of "issued_accesses recs"]
  obtain st where seq: "access_sequence (issued_accesses recs) st0 = Some st" by blast
  then have run: "replay_trace recs st0 = Some st" by (simp add: replay_trace_issued)
  from access_sequence_counts_word [OF wf0 seq] zero
  have word: "total_hits st + total_misses st = of_nat ?n"
    by (simp add: length_issued_accesses)
  have exact: "sint (total_hits st) + sint (total_misses st) = int ?n" if "?n < 2 ^ 31"
  proof -
    from that zero have "unat (total_hits st0) + unat (total_misses st0) +
        length (issued_accesses recs) < 2 ^ 32"
      by (simp add: length_issued_accesses)
    from access_sequence_counts_exact [OF wf0 seq this] zero
    have sum: "unat (total_hits st) + unat (total_misses st) = ?n"
      by (simp add: length_issued_accesses)
    with that have "unat (total_hits st) < 2 ^ 31" and "unat (total_misses st) < 2 ^ 31"
      by linarith+
    then have "sint (total_hits st) = int (unat (total_hits st))"
      and "sint (total_misses st) = int (unat (total_misses st))"
      by (simp_all add: sint_small)
    with sum show ?thesis by linarith
  qed
  have other: "trace_switch r st1 = Some st1"
    if "command r \<noteq> CHR ''L'' \<and> command r \<noteq> CHR ''S'' \<and> command r \<noteq> CHR ''M''" for r st1
    using that by (simp add: trace_switch_def)
  from st0 run word exact other show ?thesis by blast
qed

theorem hits_plus_misses_conservation_witness:
  "supported_geometry 1 1 1 \<and>
   (\<exists>st0 st. configure 1 1 1 = Some st0 \<and>
      replay_trace
        [\<lparr>command = CHR ''L'', address = 0, access_size = 1\<rparr>,
         \<lparr>command = CHR ''M'', address = 4, access_size = 1\<rparr>,
         \<lparr>command = CHR ''I'', address = 8, access_size = 1\<rparr>,
         \<lparr>command = CHR ''S'', address = 0, access_size = 1\<rparr>] st0 = Some st \<and>
      total_hits st + total_misses st = 4 \<and>
      sint (total_hits st) + sint (total_misses st) = 4)"
proof -
  let ?recs = "[\<lparr>command = CHR ''L'', address = 0, access_size = 1\<rparr>,
         \<lparr>command = CHR ''M'', address = 4, access_size = 1\<rparr>,
         \<lparr>command = CHR ''I'', address = 8, access_size = 1\<rparr>,
         \<lparr>command = CHR ''S'', address = 0 :: memory_address_t, access_size = 1\<rparr>]"
  have g: "supported_geometry 1 1 1" by (simp add: supported_geometry_def)
  have n: "count_command (CHR ''L'') ?recs + count_command (CHR ''S'') ?recs +
      2 * count_command (CHR ''M'') ?recs = 4"
    by (simp add: count_command_def)
  from hits_plus_misses_conservation [OF g, of ?recs] g show ?thesis
    unfolding n by auto
qed

section \<open>The invariant of the table\<close>

text \<open>
  C6. For a supported geometry, every sequence of accesses from the fresh cache returns a
  state in which no two valid lines of one set hold the same tag, and every further access
  to that state returns a state with the same property.
\<close>

theorem no_two_valid_lines_share_a_tag:
  assumes "supported_geometry s E b"
  shows "\<exists>st. reach s E b as = Some st \<and> no_duplicate_tags st \<and>
           (\<forall>a. \<exists>st'. access_data a st = Some st' \<and> no_duplicate_tags st')"
proof -
  from reach_defined [OF assms, of as] obtain st where st: "reach s E b as = Some st"
    by blast
  note inv = reach_invariants [OF assms st]
  have "\<exists>st'. access_data a st = Some st' \<and> no_duplicate_tags st'" for a
  proof -
    from access_data_well_formed [OF inv(1), of a]
    obtain st' where st': "access_data a st = Some st'" by blast
    from access_data_no_duplicate_tags [OF inv(1,2) st'] st' show ?thesis by blast
  qed
  with st inv(2) show ?thesis by blast
qed

theorem no_two_valid_lines_share_a_tag_witness:
  "supported_geometry 1 2 1 \<and>
   (\<exists>st. reach 1 2 1 [0, 4] = Some st \<and> no_duplicate_tags st \<and>
      is_valid (cache_memory st ! 0 ! 0) \<noteq> 0 \<and> is_valid (cache_memory st ! 0 ! 1) \<noteq> 0 \<and>
      tag_value (cache_memory st ! 0 ! 0) \<noteq> tag_value (cache_memory st ! 0 ! 1))"
proof -
  have g: "supported_geometry 1 2 1" by (simp add: supported_geometry_def)
  have r: "reach 1 2 1 [0, 4] =
    Some \<lparr>set_index_bits = 1, block_offset_bits = 1, associativity = 2,
     number_of_sets = 2, block_size_bytes = 2,
     total_misses = 2, total_hits = 0, total_evictions = 0,
     global_lru_counter = 3,
     cache_memory =
       [[\<lparr>is_valid = 1, tag_value = 0, lru_counter = 1\<rparr>,
         \<lparr>is_valid = 1, tag_value = 1, lru_counter = 2\<rparr>],
        [empty_line, empty_line]],
     set_index_mask = 1\<rparr>"
    by code_simp
  from no_two_valid_lines_share_a_tag [OF g, of "[0, 4]"]
  obtain st where st: "reach 1 2 1 [0, 4] = Some st" "no_duplicate_tags st" by blast
  from st(1) r have "is_valid (cache_memory st ! 0 ! 0) \<noteq> 0 \<and>
      is_valid (cache_memory st ! 0 ! 1) \<noteq> 0 \<and>
      tag_value (cache_memory st ! 0 ! 0) \<noteq> tag_value (cache_memory st ! 0 ! 1)"
    by auto
  with g st show ?thesis by blast
qed

section \<open>The claims about main\<close>

text \<open>
  C7, as stated, fails on the program: on the command line \<^verbatim>\<open>-s 1 -E 1 -b 0 -t t.trace\<close>,
  with the trace \<open>L 0,1\<close>, \<open>L 2,1\<close> in the file, the test of line 184 takes the value 0 of
  \<open>block_offset_bits\<close> for a missing argument, and \<open>main\<close> exits with status 1 before the
  cache is built.
\<close>

theorem zero_block_bits_exit_before_simulation:
  "main
     (one_file ''t.trace''
        [\<lparr>command = CHR ''L'', address = 0, access_size = 1\<rparr>,
         \<lparr>command = CHR ''L'', address = 2, access_size = 1\<rparr>])
     [(CHR ''s'', ''1''), (CHR ''E'', ''1''), (CHR ''b'', ''0''), (CHR ''t'', ''t.trace'')]
   = Exit_Failure"
  by code_simp

text \<open>
  C7, amended. Lines 190-200 of \<open>main\<close>, run with \<open>set_index_bits = 1\<close>,
  \<open>associativity = 1\<close> and \<open>block_offset_bits = 0\<close> on the trace \<open>L 0,1\<close>, \<open>L 2,1\<close>, yield
  hits 0, misses 2, evictions 1. The whole of \<open>main\<close> yields the same counts for the same
  two sets of one line on the command line \<^verbatim>\<open>-s 1 -E 1 -b 1 -t t.trace\<close> with the trace
  \<open>L 0,1\<close>, \<open>L 4,1\<close> in the file.
\<close>

theorem two_tags_in_one_line_set_miss_twice_evict_once:
  "simulate 1 1 0
     [\<lparr>command = CHR ''L'', address = 0, access_size = 1\<rparr>,
      \<lparr>command = CHR ''L'', address = 2, access_size = 1\<rparr>] = Some (0, 2, 1) \<and>
   main
     (one_file ''t.trace''
        [\<lparr>command = CHR ''L'', address = 0, access_size = 1\<rparr>,
         \<lparr>command = CHR ''L'', address = 4, access_size = 1\<rparr>])
     [(CHR ''s'', ''1''), (CHR ''E'', ''1''), (CHR ''b'', ''1''), (CHR ''t'', ''t.trace'')]
   = Print_Summary 0 2 1"
  by code_simp

text \<open>
  C8, as stated, fails on the program. On \<^verbatim>\<open>-s 1 -E -1 -b 1 -t t.trace\<close> the test of line
  184 is false and \<open>main\<close> runs: on an empty trace file it prints a summary of zeros, and on
  a file with one record it takes no exit either. On \<^verbatim>\<open>-s 40 -E 1 -b 30 -t t.trace\<close>, where
  the sum of the bit counts exceeds 63, the test is false as well and \<open>main\<close> does not take
  the error exit.
\<close>

theorem negative_associativity_and_wide_geometry_not_rejected:
  "\<not> missing_required_argument 1 (- 1) 1 (Some ''t.trace'') \<and>
   main (one_file ''t.trace'' [])
     [(CHR ''s'', ''1''), (CHR ''E'', ''-1''), (CHR ''b'', ''1''), (CHR ''t'', ''t.trace'')]
   = Print_Summary 0 0 0 \<and>
   main (one_file ''t.trace'' [\<lparr>command = CHR ''L'', address = 0, access_size = 1\<rparr>])
     [(CHR ''s'', ''1''), (CHR ''E'', ''-1''), (CHR ''b'', ''1''), (CHR ''t'', ''t.trace'')]
   \<noteq> Exit_Failure \<and>
   \<not> missing_required_argument 40 1 30 (Some ''t.trace'') \<and>
   main (one_file ''t.trace'' [\<lparr>command = CHR ''L'', address = 0, access_size = 1\<rparr>])
     [(CHR ''s'', ''40''), (CHR ''E'', ''1''), (CHR ''b'', ''30''), (CHR ''t'', ''t.trace'')]
   \<noteq> Exit_Failure"
  by code_simp

lemma main_after_option_loop:
  assumes "option_loop getopt_results initial_arguments = Inr args"
  shows "main files getopt_results =
     (if missing_required_argument (arg_set_index_bits args) (arg_associativity args)
           (arg_block_offset_bits args) (arg_trace_filename args)
      then Exit_Failure
      else
        (case arg_trace_filename args of
           None \<Rightarrow> Exit_Failure
         | Some trace_filename \<Rightarrow>
             (case files trace_filename of
                None \<Rightarrow> Undefined_Behaviour
              | Some trace \<Rightarrow>
                  (case simulate (arg_set_index_bits args) (arg_associativity args)
                          (arg_block_offset_bits args) trace of
                     None \<Rightarrow> Undefined_Behaviour
                   | Some (h, m, e) \<Rightarrow> Print_Summary h m e))))"
  using assms by (simp add: main_def)

text \<open>
  C8, amended. Take any command line that the option loop reads to its end (no \<^verbatim>\<open>-h\<close>, no
  unrecognised option). If it leaves \<open>associativity\<close> equal to 0, \<open>main\<close> takes the error
  exit (the message about a missing required argument and exit status 1) before the cache
  is built and any access is made, whatever the trace file holds. If it leaves a negative
  \<open>associativity\<close>, or bit counts whose sum exceeds 63, with the three values other than 0
  and a trace file named, \<open>main\<close> takes neither the error exit nor an exit of the option
  loop: such a geometry is not rejected.
\<close>

theorem zero_associativity_is_fatal_negative_or_wide_is_not:
  assumes "option_loop getopt_results initial_arguments = Inr args"
  shows "(arg_associativity args = 0 \<longrightarrow> main files getopt_results = Exit_Failure) \<and>
         ((arg_associativity args < 0 \<or>
           63 < arg_set_index_bits args + arg_block_offset_bits args) \<and>
          arg_set_index_bits args \<noteq> 0 \<and> arg_associativity args \<noteq> 0 \<and>
          arg_block_offset_bits args \<noteq> 0 \<and> arg_trace_filename args \<noteq> None \<longrightarrow>
            main files getopt_results \<noteq> Exit_Failure \<and>
            (\<forall>n. main files getopt_results \<noteq> Exit_Silent n))"
proof (intro conjI impI)
  assume "arg_associativity args = 0"
  then show "main files getopt_results = Exit_Failure"
    by (simp add: main_after_option_loop [OF assms] missing_required_argument_def)
next
  assume h: "(arg_associativity args < 0 \<or>
           63 < arg_set_index_bits args + arg_block_offset_bits args) \<and>
          arg_set_index_bits args \<noteq> 0 \<and> arg_associativity args \<noteq> 0 \<and>
          arg_block_offset_bits args \<noteq> 0 \<and> arg_trace_filename args \<noteq> None"
  then obtain name where name: "arg_trace_filename args = Some name" by auto
  with h have run: "main files getopt_results =
      (case files name of
         None \<Rightarrow> Undefined_Behaviour
       | Some trace \<Rightarrow>
           (case simulate (arg_set_index_bits args) (arg_associativity args)
                   (arg_block_offset_bits args) trace of
              None \<Rightarrow> Undefined_Behaviour
            | Some (h, m, e) \<Rightarrow> Print_Summary h m e))"
    by (simp add: main_after_option_loop [OF assms] missing_required_argument_def)
  show "main files getopt_results \<noteq> Exit_Failure"
    unfolding run by (simp split: option.splits prod.splits)
  show "\<forall>n. main files getopt_results \<noteq> Exit_Silent n"
    unfolding run by (simp split: option.splits prod.splits)
qed

theorem zero_associativity_is_fatal_negative_or_wide_is_not_witness:
  "option_loop
     [(CHR ''s'', ''1''), (CHR ''E'', ''0''), (CHR ''b'', ''1''), (CHR ''t'', ''t.trace'')]
     initial_arguments =
   Inr \<lparr>arg_verbose_mode = 0, arg_set_index_bits = 1, arg_block_offset_bits = 1,
        arg_associativity = 0, arg_trace_filename = Some ''t.trace''\<rparr> \<and>
   main (one_file ''t.trace'' [\<lparr>command = CHR ''L'', address = 0, access_size = 1\<rparr>])
     [(CHR ''s'', ''1''), (CHR ''E'', ''0''), (CHR ''b'', ''1''), (CHR ''t'', ''t.trace'')]
   = Exit_Failure \<and>
   option_loop
     [(CHR ''s'', ''1''), (CHR ''E'', ''-1''), (CHR ''b'', ''1''), (CHR ''t'', ''t.trace'')]
     initial_arguments =
   Inr \<lparr>arg_verbose_mode = 0, arg_set_index_bits = 1, arg_block_offset_bits = 1,
        arg_associativity = - 1, arg_trace_filename = Some ''t.trace''\<rparr> \<and>
   main (one_file ''t.trace'' [\<lparr>command = CHR ''L'', address = 0, access_size = 1\<rparr>])
     [(CHR ''s'', ''1''), (CHR ''E'', ''-1''), (CHR ''b'', ''1''), (CHR ''t'', ''t.trace'')]
   \<noteq> Exit_Failure"
proof -
  let ?files = "one_file ''t.trace'' [\<lparr>command = CHR ''L'', address = 0, access_size = 1\<rparr>]"
  let ?zero = "[(CHR ''s'', ''1''), (CHR ''E'', ''0''), (CHR ''b'', ''1''), (CHR ''t'', ''t.trace'')]"
  let ?neg = "[(CHR ''s'', ''1''), (CHR ''E'', ''-1''), (CHR ''b'', ''1''), (CHR ''t'', ''t.trace'')]"
  have z: "option_loop ?zero initial_arguments =
      Inr \<lparr>arg_verbose_mode = 0, arg_set_index_bits = 1, arg_block_offset_bits = 1,
        arg_associativity = 0, arg_trace_filename = Some ''t.trace''\<rparr>"
    by code_simp
  have n: "option_loop ?neg initial_arguments =
      Inr \<lparr>arg_verbose_mode = 0, arg_set_index_bits = 1, arg_block_offset_bits = 1,
        arg_associativity = - 1, arg_trace_filename = Some ''t.trace''\<rparr>"
    by code_simp
  from zero_associativity_is_fatal_negative_or_wide_is_not [OF z, of ?files]
  have "main ?files ?zero = Exit_Failure" by simp
  moreover from zero_associativity_is_fatal_negative_or_wide_is_not [OF n, of ?files]
  have "main ?files ?neg \<noteq> Exit_Failure" by simp
  ultimately show ?thesis using z n by blast
qed

text \<open>
  C9, as stated, fails on the program: \<open>set_index_bits = 32\<close> and \<open>block_offset_bits = 1\<close>
  have a sum of at most 63, but \<^verbatim>\<open>1 << 32\<close> on a 32-bit \<^verbatim>\<open>int\<close> is not defined, and no
  configuration with \<open>2 ^ 32\<close> sets results.
\<close>

theorem shift_of_int_one_by_32_undefined:
  "(32 :: int) + 1 \<le> 63 \<and> pow_macro 2 32 = None \<and> configure 32 1 1 = None"
  by (simp add: configure_def pow_macro_def)

text \<open>
  C9, amended. For \<open>set_index_bits\<close> and \<open>block_offset_bits\<close> from 0 to 30 the macro
  yields the exact powers of two, and the configuration has \<open>2 ^ set_index_bits\<close> sets,
  block size \<open>2 ^ block_offset_bits\<close> and the set-index mask \<open>2 ^ set_index_bits - 1\<close>.
  Whatever 32-bit value the shift yields, the \<^verbatim>\<open>int\<close> that stores it is below \<open>2 ^ 31\<close>.
\<close>

theorem derived_quantities_are_powers_of_two:
  assumes "0 \<le> s" and "s \<le> 30" and "0 \<le> b" and "b \<le> 30"
  shows "\<exists>ps pb st. pow_macro 2 s = Some ps \<and> sint ps = 2 ^ nat s \<and>
           pow_macro 2 b = Some pb \<and> sint pb = 2 ^ nat b \<and>
           configure s E b = Some st \<and>
           number_of_sets st = 2 ^ nat s \<and>
           block_size_bytes st = 2 ^ nat b \<and>
           set_index_mask st = 2 ^ nat s - 1 \<and>
           unat (set_index_mask st) = 2 ^ nat s - 1 \<and>
           length (cache_memory st) = 2 ^ nat s \<and>
           (\<forall>p. int_of_unsigned_cast p < 2 ^ 31)"
proof -
  from assms have g: "0 \<le> s" "s < 31" "0 \<le> b" "b < 31" by simp_all
  then have ns: "nat s < 31" and nb: "nat b < 31" by simp_all
  let ?st = "initial_globals
             \<lparr>set_index_bits := s, block_offset_bits := b, associativity := E,
              number_of_sets := 2 ^ nat s, block_size_bytes := 2 ^ nat b,
              cache_memory := replicate (2 ^ nat s) (replicate (nat E) empty_line),
              set_index_mask := mask (nat s)\<rparr>"
  have "uint (mask (nat s) :: 64 word) = mask (min 64 (nat s))"
    by (simp only: uint_mask_eq) simp
  also from ns have "min 64 (nat s) = nat s" by simp
  finally have "uint (mask (nat s) :: 64 word) = 2 ^ nat s - 1"
    by (simp only: mask_int_def)
  then have "unat (mask (nat s) :: 64 word) = nat (2 ^ nat s - 1)"
    by (simp only: unat_eq_nat_uint)
  also have "\<dots> = 2 ^ nat s - 1"
    by (simp add: nat_diff_distrib nat_power_eq)
  finally have "unat (mask (nat s) :: 64 word) = 2 ^ nat s - 1" .
  then have "number_of_sets ?st = 2 ^ nat s" "block_size_bytes ?st = 2 ^ nat b"
    "set_index_mask ?st = 2 ^ nat s - 1" "unat (set_index_mask ?st) = 2 ^ nat s - 1"
    "length (cache_memory ?st) = 2 ^ nat s"
    by (simp_all add: mask_eq_exp_minus_1)
  with pow_macro_eq [OF g(1,2), of 2] sint_push_bit_1 [OF ns]
    pow_macro_eq [OF g(3,4), of 2] sint_push_bit_1 [OF nb] configure_eq [OF g, of E]
    int_of_unsigned_cast_bound
  show ?thesis by blast
qed

theorem derived_quantities_are_powers_of_two_witness:
  "(0 :: int) \<le> 4 \<and> (4 :: int) \<le> 30 \<and> (0 :: int) \<le> 5 \<and> (5 :: int) \<le> 30 \<and>
   (\<exists>st. configure 4 1 5 = Some st \<and> number_of_sets st = 16 \<and>
      block_size_bytes st = 32 \<and> set_index_mask st = 15)"
proof -
  from derived_quantities_are_powers_of_two [of 4 5 1]
  obtain st where "configure 4 1 5 = Some st" "number_of_sets st = 2 ^ nat 4"
    "block_size_bytes st = 2 ^ nat 5" "set_index_mask st = 2 ^ nat 4 - 1"
    by auto
  then have "configure 4 1 5 = Some st \<and> number_of_sets st = 16 \<and>
      block_size_bytes st = 32 \<and> set_index_mask st = 15"
    by simp
  then show ?thesis by auto
qed

end
